theory Spec2Isabelle
  imports Complex_Main "HOL-Library.Word"
begin

unbundle bit_operations_syntax

section \<open>dm-integrity tool: data model\<close>

text \<open>
  The program is \<^verbatim>\<open>src/main.c\<close>. Its unsigned 64-bit, 32-bit, 16-bit and 8-bit
  integers are words, so that \<open>+\<close>, \<open>-\<close> and \<open>*\<close> wrap as they do in C.
\<close>

type_synonym u8 = "8 word"
type_synonym u16 = "16 word"
type_synonym u32 = "32 word"
type_synonym u64 = "64 word"

text \<open>
  Constants of the C library headers that the source uses by name. Their values are the
  ones of Linux on x86-64 (\<^verbatim>\<open>stdlib.h\<close>, \<^verbatim>\<open>errno.h\<close>, \<^verbatim>\<open>fcntl.h\<close>).
\<close>

definition EXIT_SUCCESS :: int where "EXIT_SUCCESS = 0"
definition EXIT_FAILURE :: int where "EXIT_FAILURE = 1"
definition EINTR :: int where "EINTR = 4"
definition EIO :: int where "EIO = 5"
definition EINVAL :: int where "EINVAL = 22"
definition EILSEQ :: int where "EILSEQ = 84"
definition O_RDONLY :: u32 where "O_RDONLY = 0"
definition O_RDWR :: u32 where "O_RDWR = 2"
definition O_ACCMODE :: u32 where "O_ACCMODE = 3"
definition O_DIRECT :: u32 where "O_DIRECT = 0x4000"

abbreviation SECTOR_SIZE :: "'a::numeral" where "SECTOR_SIZE \<equiv> 512"

definition SB_VERSION :: u8 where "SB_VERSION = 1"

text \<open>
  \<^verbatim>\<open>SB_MAGIC\<close> is the string literal \<^verbatim>\<open>"integrt"\<close>: seven characters and the
  terminating zero byte, eight bytes in all, and \<^verbatim>\<open>memcmp\<close> compares all eight.
\<close>

definition SB_MAGIC :: "u8 list" where
  "SB_MAGIC = map (\<lambda>c. of_nat (of_char c)) ''integrt'' @ [0]"

datatype dev_command = DEV_CHECK | DEV_FIX | DEV_FORMAT

text \<open>The process-wide settings that \<^verbatim>\<open>main\<close> fills in from the command line.\<close>

record config =
  debug :: bool
  randomize :: bool
  open_flags :: u32
  block_sectors :: u32

text \<open>
  A system call answers with a non-negative value, or with \<open>-1\<close> and an error number
  that it stores in \<^verbatim>\<open>errno\<close>.
\<close>

datatype reply = Ok nat | Fail int

fun ret_val :: "reply \<Rightarrow> int" where
  "ret_val (Ok n) = int n"
| "ret_val (Fail e) = - 1"

text \<open>Every line the program prints, with the values of its format arguments.\<close>

datatype message =
    Clear_line
  | Seek_error u64 int
  | Error_sector u64 int
  | IO_error_sector u64
  | Bad_sector_wiped u64
  | Write_error u64
  | Fsync_failed int
  | Dbg_wipe u64 u64
  | Dbg_running string
  | Finished_line int int int nat rat
  | Progress_line "rat" int int nat rat
  | No_header string
  | Info_device string
  | Field string int

section \<open>The superblock dump\<close>

record superblock =
  magic :: "u8 list"
  version :: u8
  log2_interleave_sectors :: "8 word"
  integrity_tag_size :: u16
  journal_sections :: u32
  provided_data_sectors :: u64

text \<open>
  The struct is packed, so the 24 bytes that \<^verbatim>\<open>read\<close> stores are its fields in
  order. A multi-byte field read through the struct has the byte order of the host;
  \<^verbatim>\<open>le16toh\<close>, \<^verbatim>\<open>le32toh\<close> and \<^verbatim>\<open>le64toh\<close> are the identity on a little-endian host
  and swap the bytes on a big-endian one.
\<close>

datatype endian = Little_endian | Big_endian

fun le_word :: "u8 list \<Rightarrow> 'a::len word" where
  "le_word [] = 0"
| "le_word (b # bs) = ucast b OR push_bit 8 (le_word bs)"

definition host_word :: "endian \<Rightarrow> u8 list \<Rightarrow> 'a::len word" where
  "host_word h bs = (case h of Little_endian \<Rightarrow> le_word bs | Big_endian \<Rightarrow> le_word (rev bs))"

definition byte_of :: "'a::len word \<Rightarrow> nat \<Rightarrow> u8" where
  "byte_of w i = ucast (drop_bit (8 * i) w)"

definition bswap_16 :: "u16 \<Rightarrow> u16" where
  "bswap_16 w = le_word [byte_of w 1, byte_of w 0]"

definition bswap_32 :: "u32 \<Rightarrow> u32" where
  "bswap_32 w = le_word [byte_of w 3, byte_of w 2, byte_of w 1, byte_of w 0]"

definition bswap_64 :: "u64 \<Rightarrow> u64" where
  "bswap_64 w = le_word [byte_of w 7, byte_of w 6, byte_of w 5, byte_of w 4,
                         byte_of w 3, byte_of w 2, byte_of w 1, byte_of w 0]"

definition le16toh :: "endian \<Rightarrow> u16 \<Rightarrow> u16" where
  "le16toh h w = (case h of Little_endian \<Rightarrow> w | Big_endian \<Rightarrow> bswap_16 w)"

definition le32toh :: "endian \<Rightarrow> u32 \<Rightarrow> u32" where
  "le32toh h w = (case h of Little_endian \<Rightarrow> w | Big_endian \<Rightarrow> bswap_32 w)"

definition le64toh :: "endian \<Rightarrow> u64 \<Rightarrow> u64" where
  "le64toh h w = (case h of Little_endian \<Rightarrow> w | Big_endian \<Rightarrow> bswap_64 w)"

definition sb_overlay :: "endian \<Rightarrow> u8 list \<Rightarrow> superblock" where
  "sb_overlay h mem =
     \<lparr> magic = take 8 mem,
       version = mem ! 8,
       log2_interleave_sectors = mem ! 9,
       integrity_tag_size = host_word h (take 2 (drop 10 mem)),
       journal_sections = host_word h (take 4 (drop 12 mem)),
       provided_data_sectors = host_word h (take 8 (drop 16 mem)) \<rparr>"

text \<open>
  What the dump path meets outside the program: the byte order of the host, the answer
  of \<^verbatim>\<open>open\<close>, the answer of the one \<^verbatim>\<open>read\<close> (an error, or the bytes delivered), and
  the indeterminate content of the caller's uninitialised \<^verbatim>\<open>struct superblock sb\<close>.
\<close>

datatype sb_read = Read_error int | Read_bytes "u8 list"

record dump_env =
  host :: endian
  open_reply :: reply
  header_read :: sb_read
  stack :: "nat \<Rightarrow> u8"

definition sb_size :: nat where "sb_size = 24"

fun read_count :: "sb_read \<Rightarrow> int" where
  "read_count (Read_error e) = - 1"
| "read_count (Read_bytes bs) = int (length bs)"

fun read_data :: "sb_read \<Rightarrow> u8 list" where
  "read_data (Read_error e) = []"
| "read_data (Read_bytes bs) = bs"

definition sb_memory :: "dump_env \<Rightarrow> u8 list" where
  "sb_memory env =
     map (\<lambda>i. if i < length (read_data (header_read env))
               then read_data (header_read env) ! i else stack env i) [0..<sb_size]"

text \<open>
  \<^verbatim>\<open>read_superblock\<close> returns its status, what it printed, and the struct as it leaves
  it. The model of \<^verbatim>\<open>device\<close> is \<open>None\<close> for a null pointer.
\<close>

definition read_superblock :: "dump_env \<Rightarrow> string option \<Rightarrow> int \<times> message list \<times> superblock" where
  "read_superblock env device =
     (case device of
        None \<Rightarrow> (EXIT_FAILURE, [], sb_overlay (host env) (map (stack env) [0..<sb_size]))
      | Some name \<Rightarrow>
          if ret_val (open_reply env) = - 1
          then (EXIT_FAILURE, [], sb_overlay (host env) (map (stack env) [0..<sb_size]))
          else
            let sb = sb_overlay (host env) (sb_memory env) in
            if read_count (header_read env) \<noteq> int sb_size
               \<or> magic sb \<noteq> SB_MAGIC
               \<or> version sb \<noteq> SB_VERSION
            then (EXIT_FAILURE, [No_header name], sb)
            else (EXIT_SUCCESS, [],
                  sb\<lparr> integrity_tag_size := le16toh (host env) (integrity_tag_size sb),
                      journal_sections := le32toh (host env) (journal_sections sb),
                      provided_data_sectors := le64toh (host env) (provided_data_sectors sb) \<rparr>))"

definition cmd_dump :: "dump_env \<Rightarrow> string option \<Rightarrow> int \<times> message list" where
  "cmd_dump env device =
     (case read_superblock env device of (r, out, sb) \<Rightarrow>
        if r \<noteq> 0 then (r, out)
        else (EXIT_SUCCESS,
              out @ [Info_device (case device of Some name \<Rightarrow> name | None \<Rightarrow> []),
                     Field ''log2_interleave_sectors'' (sint (log2_interleave_sectors sb)),
                     Field ''integrity_tag_size'' (uint (integrity_tag_size sb)),
                     Field ''journal_sections'' (uint (journal_sections sb)),
                     Field ''provided_data_sectors'' (uint (provided_data_sectors sb))]))"

fun is_field :: "message \<Rightarrow> bool" where
  "is_field (Field name v) = True"
| "is_field (Info_device name) = True"
| "is_field m = False"

section \<open>The scan and repair engine: the world outside\<close>

text \<open>
  The engine talks to the operating system. Every call is recorded in a trace, newest
  event first, together with the function of the source that issued it, the answer, and
  the value of \<^verbatim>\<open>errno\<close> as the call left it. The answers come from an environment that
  sees the whole history and the request, so that any behaviour of the device, however
  erratic, is some environment.
\<close>

record timeval =
  tv_sec :: int
  tv_usec :: int

datatype caller = Resolver | Engine | Fallback | Randomizer

datatype request =
    Posix_memalign u64
  | Stat
  | Open_dev u32
  | Ioctl_BLKGETSIZE64
  | Lseek64 u64
  | Read u64
  | Write u64
  | Fsync
  | Close
  | Getrandom u64

datatype event =
    Call caller request reply int
  | Print message
  | Flush
  | Clock timeval

record env =
  sys :: "event list \<Rightarrow> caller \<Rightarrow> request \<Rightarrow> reply"
  clock :: "event list \<Rightarrow> timeval"
  blkgetsize64 :: "event list \<Rightarrow> u64"

text \<open>
  The state of the process: the trace, \<^verbatim>\<open>errno\<close>, and the two static timestamps of
  \<^verbatim>\<open>print_progress\<close> that survive between calls (\<^verbatim>\<open>now_time\<close> is static too, but
  every call overwrites it before reading it).
\<close>

record world =
  trace :: "event list"
  errno :: int
  start_time :: timeval
  end_time :: timeval

definition init_world :: world where
  "init_world = \<lparr> trace = [], errno = 0,
                   start_time = \<lparr> tv_sec = 0, tv_usec = 0 \<rparr>,
                   end_time = \<lparr> tv_sec = 0, tv_usec = 0 \<rparr> \<rparr>"

text \<open>
  A system call leaves \<^verbatim>\<open>errno\<close> alone when it succeeds. The library calls that are
  not system calls (\<^verbatim>\<open>printf\<close>, \<^verbatim>\<open>fflush\<close>, \<^verbatim>\<open>memset\<close>, \<^verbatim>\<open>free\<close>) are taken to
  leave it alone always. The content of the chunk buffer is not part of the state.
\<close>

definition syscall :: "env \<Rightarrow> caller \<Rightarrow> request \<Rightarrow> world \<Rightarrow> reply \<times> world" where
  "syscall env c rq w =
     (let rp = sys env (trace w) c rq;
          en = (case rp of Ok n \<Rightarrow> errno w | Fail e \<Rightarrow> e)
      in (rp, w\<lparr> trace := Call c rq rp en # trace w, errno := en \<rparr>))"

definition printf :: "message \<Rightarrow> world \<Rightarrow> world" where
  "printf m w = w\<lparr> trace := Print m # trace w \<rparr>"

definition fflush :: "world \<Rightarrow> world" where
  "fflush w = w\<lparr> trace := Flush # trace w \<rparr>"

definition clear_line :: "world \<Rightarrow> world" where
  "clear_line w = printf Clear_line w"

definition gettimeofday :: "env \<Rightarrow> world \<Rightarrow> timeval \<times> world" where
  "gettimeofday env w =
     (let t = clock env (trace w) in (t, w\<lparr> trace := Clock t # trace w \<rparr>))"

text \<open>
  What stops a run before the function returns: a failed \<^verbatim>\<open>assert\<close> (the process
  aborts), a floating-point division by zero, or the end of the fuel that bounds the two
  loops which the source does not bound.
\<close>

datatype quantity = Elapsed | Throughput | Device_bytes

datatype halt = Assert_failed | Div_by_zero quantity | Out_of_fuel

section \<open>The sector initializer\<close>

text \<open>
  \<^verbatim>\<open>get_random\<close> is a do-while loop around the \<^verbatim>\<open>getrandom\<close> system call. The result
  of the call is stored in an \<^verbatim>\<open>int\<close>, and the first assertion compares it as a
  \<^verbatim>\<open>size_t\<close>. The loop ends only when the buffer is full, so it has fuel.
\<close>

fun get_random :: "nat \<Rightarrow> env \<Rightarrow> u64 \<Rightarrow> world \<Rightarrow> (halt + unit) \<times> world" where
  "get_random 0 env buf_size w = (Inl Out_of_fuel, w)"
| "get_random (Suc fuel) env buf_size w =
     (case syscall env Randomizer (Getrandom buf_size) w of (rp, w1) \<Rightarrow>
        let r = (word_of_int (ret_val rp) :: 32 word) in
        if \<not> ((scast r :: u64) \<le> buf_size) then (Inl Assert_failed, w1)
        else if \<not> (errno w1 = 0 \<or> errno w1 = EINTR) then (Inl Assert_failed, w1)
        else
          let buf_size' = (if 0 < sint r then buf_size - scast r else buf_size) in
          if buf_size' \<noteq> 0 then get_random fuel env buf_size' w1
          else (Inr (), w1))"

definition init_sector :: "nat \<Rightarrow> config \<Rightarrow> env \<Rightarrow> world \<Rightarrow> (halt + unit) \<times> world" where
  "init_sector rfuel cfg env w =
     (if randomize cfg then get_random rfuel env SECTOR_SIZE w else (Inr (), w))"

section \<open>The progress reporter\<close>

text \<open>
  The reporter computes with \<^verbatim>\<open>double\<close>. The model computes with exact rationals: the
  timestamps are whole microseconds, and the values are only compared with \<open>0\<close> and
  \<open>0.5\<close>, printed, or used as divisors. A division whose divisor is zero has no rational
  result (in C it is an infinity or a NaN) and halts the model.
\<close>

definition time_diff :: "timeval \<Rightarrow> timeval \<Rightarrow> rat" where
  "time_diff start end =
     of_int (tv_sec end - tv_sec start) + of_int (tv_usec end - tv_usec start) / 1000000"

definition fdiv :: "quantity \<Rightarrow> rat \<Rightarrow> rat \<Rightarrow> halt + rat" where
  "fdiv q x y = (if y = 0 then Inl (Div_by_zero q) else Inr (x / y))"

text \<open>Conversion of a \<^verbatim>\<open>double\<close> to \<^verbatim>\<open>unsigned long long\<close> drops the fraction.\<close>

definition to_ull :: "rat \<Rightarrow> int" where
  "to_ull x = (if x < 0 then - \<lfloor>- x\<rfloor> else \<lfloor>x\<rfloor>)"

definition print_progress ::
    "env \<Rightarrow> u64 \<Rightarrow> u64 \<Rightarrow> bool \<Rightarrow> world \<Rightarrow> (halt + unit) \<times> world" where
  "print_progress env device_size bytes final w =
     (case gettimeofday env w of (now_time, w0) \<Rightarrow>
        if tv_sec (start_time w0) = 0 \<and> tv_usec (start_time w0) = 0
        then (Inr (), w0\<lparr> start_time := now_time, end_time := now_time \<rparr>)
        else if \<not> final \<and> time_diff (end_time w0) now_time < 1 / 2
        then (Inr (), w0)
        else
          let w1 = w0\<lparr> end_time := now_time \<rparr>;
              tdiff = time_diff (start_time w1) (end_time w1)
          in
          if tdiff = 0 then (Inr (), w1)
          else
            let mbytes = bytes div 1024 div 1024 in
            case fdiv Elapsed (of_nat (unat mbytes)) tdiff of
              Inl h \<Rightarrow> (Inl h, w1)
            | Inr mib \<Rightarrow>
                if mib = 0 then (Inr (), w1)
                else
                  case fdiv Throughput (of_nat (unat (device_size div 1024 div 1024))) mib of
                    Inl h \<Rightarrow> (Inl h, w1)
                  | Inr q \<Rightarrow>
                      let eta = to_ull (q - tdiff);
                          w2 = clear_line w1
                      in
                      if final
                      then (Inr (),
                            fflush (printf (Finished_line (to_ull tdiff div 60) (to_ull tdiff mod 60)
                                       (to_ull ((tdiff - of_int \<lfloor>tdiff\<rfloor>) * 1000))
                                       (unat mbytes) mib) w2))
                      else
                        case fdiv Device_bytes (of_nat (unat bytes)) (of_nat (unat device_size)) of
                          Inl h \<Rightarrow> (Inl h, w2)
                        | Inr ratio \<Rightarrow>
                            (Inr (),
                             fflush (printf (Progress_line (ratio * 100) (eta div 60) (eta mod 60)
                                        (unat mbytes) mib) w2)))"

section \<open>The sector fallback\<close>

text \<open>
  The body of the \<^verbatim>\<open>for\<close> loop of \<^verbatim>\<open>check_one_by_one\<close> for one sector. It ends
  with a \<^verbatim>\<open>continue\<close> (or at the end of the body), and the loop goes on with the next
  sector, or with a \<^verbatim>\<open>return\<close>, and the function is left at once.
\<close>

datatype flow = Continue | Return_void

definition check_sector ::
    "nat \<Rightarrow> config \<Rightarrow> env \<Rightarrow> dev_command \<Rightarrow> u64 \<Rightarrow> world \<Rightarrow> (halt + flow) \<times> world" where
  "check_sector rfuel cfg env dc sector w =
     (case syscall env Fallback (Lseek64 (sector * SECTOR_SIZE)) w of (r1, w1) \<Rightarrow>
      if ret_val r1 < 0
      then (Inr Return_void, printf (Seek_error sector (errno w1)) w1)
      else
        case syscall env Fallback (Read SECTOR_SIZE) w1 of (r2, w2) \<Rightarrow>
        if ret_val r2 = SECTOR_SIZE
        then (Inr Continue, w2)
        else if errno w2 \<noteq> EIO \<and> errno w2 \<noteq> EILSEQ
        then (Inr Return_void, printf (Error_sector sector (errno w2)) w2)
        else if dc \<noteq> DEV_FIX
        then (Inr Continue, printf (IO_error_sector sector) w2)
        else
          case init_sector rfuel cfg env w2 of
            (Inl h, w3) \<Rightarrow> (Inl h, w3)
          | (Inr u, w3) \<Rightarrow>
              case syscall env Fallback (Lseek64 (sector * SECTOR_SIZE)) w3 of (r4, w4) \<Rightarrow>
              if ret_val r4 < 0
              then (Inr Continue, printf (Seek_error sector (errno w4)) w4)
              else
                case syscall env Fallback (Write SECTOR_SIZE) w4 of (r5, w5) \<Rightarrow>
                if ret_val r5 \<noteq> SECTOR_SIZE
                then (Inr Continue, printf (Error_sector sector (errno w5)) w5)
                else (Inr Continue, printf (Bad_sector_wiped sector) w5))"

text \<open>
  The loop itself, from \<open>sector\<close> up to the bound \<^verbatim>\<open>offset_sec + block_size_sec\<close>. A
  \<^verbatim>\<open>return\<close> in the body skips the \<^verbatim>\<open>fflush\<close> that follows the loop.
\<close>

function sector_loop ::
    "nat \<Rightarrow> config \<Rightarrow> env \<Rightarrow> dev_command \<Rightarrow> u64 \<Rightarrow> u64 \<Rightarrow> world \<Rightarrow> (halt + unit) \<times> world" where
  "sector_loop rfuel cfg env dc bound sector w =
     (if sector < bound then
        case check_sector rfuel cfg env dc sector w of
          (Inl h, w1) \<Rightarrow> (Inl h, w1)
        | (Inr Return_void, w1) \<Rightarrow> (Inr (), w1)
        | (Inr Continue, w1) \<Rightarrow> sector_loop rfuel cfg env dc bound (sector + 1) w1
      else (Inr (), fflush w))"
  by pat_completeness auto
termination
proof -
  have step: "unat bound - unat (sector + 1) < unat bound - unat sector"
    if "sector < bound" for sector bound :: u64
  proof -
    have lt: "unat sector < unat bound"
      using that by (simp add: word_less_nat_alt)
    have "unat bound < 2 ^ 64"
      using unsigned_less [of bound, where ?'a = nat] by simp
    with lt have "unat (sector + 1) = Suc (unat sector)"
      by (simp add: unat_word_ariths)
    with lt show ?thesis by simp
  qed
  show ?thesis
    apply (relation "measure (\<lambda>(rfuel, cfg, env, dc, bound, sector, w). unat bound - unat sector)")
     apply simp
    apply (simp_all only: in_measure prod.case)
    apply (rule step, assumption)+
    done
qed

definition check_one_by_one ::
    "nat \<Rightarrow> config \<Rightarrow> env \<Rightarrow> u64 \<Rightarrow> u64 \<Rightarrow> dev_command \<Rightarrow> world \<Rightarrow> (halt + unit) \<times> world" where
  "check_one_by_one rfuel cfg env block_size_sec offset_sec dc w =
     sector_loop rfuel cfg env dc (offset_sec + block_size_sec) offset_sec (clear_line w)"

section \<open>The chunk loop\<close>

text \<open>The \<^verbatim>\<open>for\<close> loop that fills the chunk buffer in Format mode, sector by sector.\<close>

function fill_loop ::
    "nat \<Rightarrow> config \<Rightarrow> env \<Rightarrow> u64 \<Rightarrow> u64 \<Rightarrow> world \<Rightarrow> (halt + unit) \<times> world" where
  "fill_loop rfuel cfg env block_size_sec sector w =
     (if sector < block_size_sec then
        case init_sector rfuel cfg env w of
          (Inl h, w1) \<Rightarrow> (Inl h, w1)
        | (Inr u, w1) \<Rightarrow> fill_loop rfuel cfg env block_size_sec (sector + 1) w1
      else (Inr (), w))"
  by pat_completeness auto
termination
proof -
  have step: "unat bound - unat (sector + 1) < unat bound - unat sector"
    if "sector < bound" for sector bound :: u64
  proof -
    have lt: "unat sector < unat bound"
      using that by (simp add: word_less_nat_alt)
    have "unat bound < 2 ^ 64"
      using unsigned_less [of bound, where ?'a = nat] by simp
    with lt have "unat (sector + 1) = Suc (unat sector)"
      by (simp add: unat_word_ariths)
    with lt show ?thesis by simp
  qed
  show ?thesis
    apply (relation "measure (\<lambda>(rfuel, cfg, env, bound, sector, w). unat bound - unat sector)")
     apply simp
    apply (simp_all only: in_measure prod.case)
    apply (rule step, assumption)+
    done
qed

text \<open>
  One pass of the \<^verbatim>\<open>while\<close> loop of \<^verbatim>\<open>rw_sectors\<close> after the seek: the bulk write
  of Format mode, or the bulk read of the other two modes with the fallback when the
  read does not return the whole chunk.
\<close>

definition chunk_io ::
    "nat \<Rightarrow> config \<Rightarrow> env \<Rightarrow> dev_command \<Rightarrow> u64 \<Rightarrow> u64 \<Rightarrow> world \<Rightarrow> (halt + unit) \<times> world" where
  "chunk_io rfuel cfg env dc offset_sec block_size_sec w =
     (if dc = DEV_FORMAT then
        let w1 = (if debug cfg
                  then printf (Dbg_wipe offset_sec (offset_sec + block_size_sec)) w else w)
        in
        case fill_loop rfuel cfg env block_size_sec 0 w1 of
          (Inl h, w2) \<Rightarrow> (Inl h, w2)
        | (Inr u, w2) \<Rightarrow>
            case syscall env Engine (Write (SECTOR_SIZE * block_size_sec)) w2 of (r, w3) \<Rightarrow>
            if ret_val r \<noteq> sint (SECTOR_SIZE * block_size_sec)
            then (Inr (), printf (Write_error offset_sec) w3)
            else (Inr (), w3)
      else
        case syscall env Engine (Read (SECTOR_SIZE * block_size_sec)) w of (r, w1) \<Rightarrow>
        if ret_val r \<noteq> sint (SECTOR_SIZE * block_size_sec)
        then check_one_by_one rfuel cfg env block_size_sec offset_sec dc w1
        else (Inr (), w1))"

text \<open>
  The chunk size of one pass: the rest of the device when a whole chunk would reach
  beyond it, the configured size otherwise. The sum is a 64-bit sum and may wrap.
\<close>

definition block_size_at :: "config \<Rightarrow> u64 \<Rightarrow> u64 \<Rightarrow> u64" where
  "block_size_at cfg dev_size_sec offset_sec =
     (if offset_sec + ucast (block_sectors cfg) > dev_size_sec
      then dev_size_sec - offset_sec
      else ucast (block_sectors cfg))"

text \<open>
  One pass of the \<^verbatim>\<open>while\<close> loop. It ends with the new offset, or it returns from
  \<^verbatim>\<open>rw_sectors\<close> with a status when the seek fails.
\<close>

datatype pass = Advance u64 | Abort int

definition chunk_pass ::
    "nat \<Rightarrow> config \<Rightarrow> env \<Rightarrow> dev_command \<Rightarrow> u64 \<Rightarrow> u64 \<Rightarrow> world \<Rightarrow> (halt + pass) \<times> world" where
  "chunk_pass rfuel cfg env dc dev_size_sec offset_sec w =
     (let block_size_sec = block_size_at cfg dev_size_sec offset_sec in
      case syscall env Engine (Lseek64 (offset_sec * SECTOR_SIZE)) w of (r1, w1) \<Rightarrow>
      if ret_val r1 < 0
      then
        case syscall env Engine Close (printf (Seek_error offset_sec (errno w1)) w1) of
          (r2, w2) \<Rightarrow> (Inr (Abort EXIT_FAILURE), w2)
      else
        case chunk_io rfuel cfg env dc offset_sec block_size_sec w1 of
          (Inl h, w3) \<Rightarrow> (Inl h, w3)
        | (Inr u, w3) \<Rightarrow>
            case print_progress env (dev_size_sec * SECTOR_SIZE)
                   ((offset_sec + block_size_sec) * SECTOR_SIZE) False w3 of
              (Inl h, w4) \<Rightarrow> (Inl h, w4)
            | (Inr u, w4) \<Rightarrow> (Inr (Advance (offset_sec + block_size_sec)), w4))"

text \<open>
  The \<^verbatim>\<open>while\<close> loop either runs out (and the function goes on behind it, with the
  offset it reached) or returns from the function inside the loop. Nothing in the source
  bounds the number of passes, so the loop has fuel.
\<close>

datatype loop_exit = Return int | Fallthrough u64

fun chunk_loop ::
    "nat \<Rightarrow> nat \<Rightarrow> config \<Rightarrow> env \<Rightarrow> dev_command \<Rightarrow> u64 \<Rightarrow> u64 \<Rightarrow> world
      \<Rightarrow> (halt + loop_exit) \<times> world" where
  "chunk_loop 0 rfuel cfg env dc dev_size_sec offset_sec w = (Inl Out_of_fuel, w)"
| "chunk_loop (Suc fuel) rfuel cfg env dc dev_size_sec offset_sec w =
     (if offset_sec < dev_size_sec then
        case chunk_pass rfuel cfg env dc dev_size_sec offset_sec w of
          (Inl h, w1) \<Rightarrow> (Inl h, w1)
        | (Inr (Abort c), w1) \<Rightarrow> (Inr (Return c), w1)
        | (Inr (Advance offset_next), w1) \<Rightarrow>
            chunk_loop fuel rfuel cfg env dc dev_size_sec offset_next w1
      else (Inr (Fallthrough offset_sec), w))"

text \<open>
  \<^verbatim>\<open>aligned_malloc\<close> takes the size as an \<^verbatim>\<open>int\<close>: the product
  \<^verbatim>\<open>block_sectors * SECTOR_SIZE\<close> is computed in 32 bits and sign-extended to the
  \<^verbatim>\<open>size_t\<close> that \<^verbatim>\<open>posix_memalign\<close> receives.
\<close>

definition buffer_bytes :: "config \<Rightarrow> u64" where
  "buffer_bytes cfg = scast (block_sectors cfg * SECTOR_SIZE)"

text \<open>The flags of the \<^verbatim>\<open>open\<close> call of \<^verbatim>\<open>rw_sectors\<close>.\<close>

definition engine_flags :: "config \<Rightarrow> dev_command \<Rightarrow> u32" where
  "engine_flags cfg dc =
     (if dc = DEV_CHECK then open_flags cfg OR O_RDONLY else open_flags cfg OR O_RDWR)"

definition rw_sectors ::
    "nat \<Rightarrow> nat \<Rightarrow> config \<Rightarrow> env \<Rightarrow> u64 \<Rightarrow> u64 \<Rightarrow> dev_command \<Rightarrow> world
      \<Rightarrow> (halt + int) \<times> world" where
  "rw_sectors fuel rfuel cfg env offset_sec dev_size_sec dc w =
     (case syscall env Engine (Posix_memalign (buffer_bytes cfg)) w of
        (ra, w1) \<Rightarrow>
        if ret_val ra \<noteq> 0 then (Inr EXIT_FAILURE, w1)
        else
          case syscall env Engine (Open_dev (engine_flags cfg dc)) w1 of (ro, w2) \<Rightarrow>
          if ret_val ro = - 1 then (Inr EXIT_FAILURE, w2)
          else
            case chunk_loop fuel rfuel cfg env dc dev_size_sec offset_sec w2 of
              (Inl h, w3) \<Rightarrow> (Inl h, w3)
            | (Inr (Return c), w3) \<Rightarrow> (Inr c, w3)
            | (Inr (Fallthrough offset_end), w3) \<Rightarrow>
                case syscall env Engine Fsync w3 of (rf, w4) \<Rightarrow>
                let w5 = (if ret_val rf < 0 then printf (Fsync_failed (errno w4)) w4 else w4) in
                case syscall env Engine Close w5 of (rc, w6) \<Rightarrow>
                case print_progress env (dev_size_sec * SECTOR_SIZE)
                       (offset_end * SECTOR_SIZE) True w6 of
                  (Inl h, w7) \<Rightarrow> (Inl h, w7)
                | (Inr u, w7) \<Rightarrow> (Inr 0, w7))"

section \<open>Resolving the device extent\<close>

text \<open>
  \<^verbatim>\<open>device_size_sec\<close> divides whatever \<^verbatim>\<open>*size\<close> holds by the sector size, also when
  the \<^verbatim>\<open>ioctl\<close> failed and left the caller's uninitialised variable as it was.
\<close>

definition device_size_sec :: "env \<Rightarrow> u64 \<Rightarrow> world \<Rightarrow> (int \<times> u64) \<times> world" where
  "device_size_sec env size0 w =
     (case syscall env Resolver Stat w of (rs, w1) \<Rightarrow>
        if ret_val rs < 0 then ((- EINVAL, size0), w1)
        else
          case syscall env Resolver (Open_dev O_RDONLY) w1 of (ro, w2) \<Rightarrow>
          if ret_val ro = - 1 then ((- EINVAL, size0), w2)
          else
            case syscall env Resolver Ioctl_BLKGETSIZE64 w2 of (ri, w3) \<Rightarrow>
            let r = (if ret_val ri < 0 then - EINVAL else 0);
                size1 = (if ret_val ri < 0 then size0 else blkgetsize64 env (trace w2))
            in
            case syscall env Resolver Close w3 of (rc, w4) \<Rightarrow>
            ((r, size1 div SECTOR_SIZE), w4))"

definition cmd_dev ::
    "nat \<Rightarrow> nat \<Rightarrow> config \<Rightarrow> env \<Rightarrow> string \<Rightarrow> u64 \<Rightarrow> dev_command \<Rightarrow> world
      \<Rightarrow> (halt + int) \<times> world" where
  "cmd_dev fuel rfuel cfg env device size0 dc w =
     (let w1 = (if debug cfg then printf (Dbg_running device) w else w) in
      case device_size_sec env size0 w1 of ((r, dev_size_sec), w2) \<Rightarrow>
        if r \<noteq> 0 then (Inr EXIT_FAILURE, w2)
        else rw_sectors fuel rfuel cfg env 0 dev_size_sec dc w2)"

section \<open>Observations on traces\<close>

text \<open>The events that a run adds are read off the trace with these projections.\<close>

fun is_write :: "event \<Rightarrow> bool" where
  "is_write (Call c (Write n) rp en) = True"
| "is_write e = False"

fun is_transfer :: "event \<Rightarrow> bool" where
  "is_transfer (Call c (Write n) rp en) = True"
| "is_transfer (Call c (Read n) rp en) = True"
| "is_transfer (Call c (Lseek64 n) rp en) = True"
| "is_transfer e = False"

fun is_report :: "event \<Rightarrow> bool" where
  "is_report (Print (Finished_line a b c d e)) = True"
| "is_report (Print (Progress_line a b c d e)) = True"
| "is_report e = False"


text \<open>The calls of one function of the source, newest first, without the rest.\<close>

fun call_by :: "caller \<Rightarrow> event \<Rightarrow> (request \<times> reply) list" where
  "call_by c (Call c' rq rp en) = (if c' = c then [(rq, rp)] else [])"
| "call_by c e = []"

definition calls_by :: "caller \<Rightarrow> event list \<Rightarrow> (request \<times> reply) list" where
  "calls_by c evs = concat (map (call_by c) evs)"

text \<open>
  A chunk is a successful seek of the engine followed by its bulk transfer. The byte
  offsets of the seeks and the byte counts of the transfers are collected in the order
  in which they happened, and paired, in sectors.
\<close>

fun seek_of :: "event \<Rightarrow> u64 list" where
  "seek_of (Call Engine (Lseek64 b) (Ok n) en) = [b]"
| "seek_of e = []"

fun transfer_of :: "event \<Rightarrow> u64 list" where
  "transfer_of (Call Engine (Read n) rp en) = [n]"
| "transfer_of (Call Engine (Write n) rp en) = [n]"
| "transfer_of e = []"

definition sectors :: "u64 \<Rightarrow> nat" where
  "sectors b = unat b div 512"

definition chunk_seeks :: "event list \<Rightarrow> u64 list" where
  "chunk_seeks evs = concat (map seek_of (rev evs))"

definition chunk_transfers :: "event list \<Rightarrow> u64 list" where
  "chunk_transfers evs = concat (map transfer_of (rev evs))"

definition chunks :: "event list \<Rightarrow> (nat \<times> nat) list" where
  "chunks evs = zip (map sectors (chunk_seeks evs)) (map sectors (chunk_transfers evs))"

text \<open>A list of chunks is contiguous from an offset when each starts where the last ended.\<close>

fun contiguous_from :: "nat \<Rightarrow> (nat \<times> nat) list \<Rightarrow> bool" where
  "contiguous_from off [] = True"
| "contiguous_from off ((a, n) # cs) = (a = off \<and> contiguous_from (off + n) cs)"

text \<open>
  The events that each part of the program can add: the random source, the sector
  fallback in a given mode, and the reporter.
\<close>

fun randomizer_event :: "event \<Rightarrow> bool" where
  "randomizer_event (Call Randomizer (Getrandom n) rp en) = True"
| "randomizer_event e = False"

fun fallback_event :: "dev_command \<Rightarrow> event \<Rightarrow> bool" where
  "fallback_event dc (Call Fallback (Lseek64 b) rp en) = True"
| "fallback_event dc (Call Fallback (Read n) rp en) = (n = SECTOR_SIZE)"
| "fallback_event dc (Call Fallback (Write n) rp en) = (n = SECTOR_SIZE \<and> dc = DEV_FIX)"
| "fallback_event dc (Call Randomizer (Getrandom n) rp en) = (dc = DEV_FIX)"
| "fallback_event dc (Print Clear_line) = True"
| "fallback_event dc (Print (Seek_error s e)) = True"
| "fallback_event dc (Print (Error_sector s e)) = True"
| "fallback_event dc (Print (IO_error_sector s)) = True"
| "fallback_event dc (Print (Bad_sector_wiped s)) = True"
| "fallback_event dc Flush = True"
| "fallback_event dc e = False"

fun reporter_event :: "event \<Rightarrow> bool" where
  "reporter_event (Clock t) = True"
| "reporter_event (Print Clear_line) = True"
| "reporter_event (Print (Finished_line a b c d e)) = True"
| "reporter_event (Print (Progress_line a b c d e)) = True"
| "reporter_event Flush = True"
| "reporter_event e = False"






text \<open>
  A progress line is what a call of the reporter that is not final prints. Its time is
  the reading of the clock in the call that printed it: the newest clock event before the
  line. \<open>progress_times\<close> lists the times of all progress lines in a trace, newest first.
\<close>

fun is_progress :: "event \<Rightarrow> bool" where
  "is_progress (Print (Progress_line a b c d e)) = True"
| "is_progress e = False"

fun clock_of :: "event \<Rightarrow> timeval option" where
  "clock_of (Clock t) = Some t"
| "clock_of e = None"

primrec last_clock :: "event list \<Rightarrow> timeval option" where
  "last_clock [] = None"
| "last_clock (e # evs) = (case clock_of e of Some t \<Rightarrow> Some t | None \<Rightarrow> last_clock evs)"

primrec progress_times :: "event list \<Rightarrow> timeval list" where
  "progress_times [] = []"
| "progress_times (e # evs) =
     (if is_progress e then (case last_clock evs of Some t \<Rightarrow> [t] | None \<Rightarrow> []) else [])
     @ progress_times evs"

text \<open>
  What the throttle relies on between calls: no progress line has been printed while the
  start time is still unset, and the static \<^verbatim>\<open>end_time\<close> is not earlier than any
  progress line.
\<close>

definition throttle_inv :: "world \<Rightarrow> bool" where
  "throttle_inv w =
     ((tv_sec (start_time w) = 0 \<and> tv_usec (start_time w) = 0 \<longrightarrow> progress_times (trace w) = [])
      \<and> (\<forall>t \<in> set (progress_times (trace w)). 0 \<le> time_diff t (end_time w)))"

text \<open>
  A list of times, newest first, is spaced when each time is at least half a second
  after every older one.
\<close>

fun spaced :: "timeval list \<Rightarrow> bool" where
  "spaced [] = True"
| "spaced (t # ts) = ((\<forall>t' \<in> set ts. 1 / 2 \<le> time_diff t' t) \<and> spaced ts)"

text \<open>
  \<open>quiet w w'\<close>: from \<open>w\<close> to \<open>w'\<close> the two timestamps are untouched and the new events
  hold no report.
\<close>

definition quiet :: "world \<Rightarrow> world \<Rightarrow> bool" where
  "quiet w w' =
     (start_time w' = start_time w \<and> end_time w' = end_time w
      \<and> (\<exists>evs. trace w' = evs @ trace w \<and> list_all (\<lambda>e. \<not> is_report e) evs))"

text \<open>
  The calls of the engine inside a pass of the chunk loop that goes on: the bulk
  transfer and the seek that succeeded.
\<close>

fun pass_call :: "request \<times> reply \<Rightarrow> bool" where
  "pass_call (Read n, rp) = True"
| "pass_call (Write n, rp) = True"
| "pass_call (Lseek64 b, Ok k) = True"
| "pass_call c = False"

text \<open>What a run in Check mode may do: anything but a write or an open for writing.\<close>

fun check_event :: "event \<Rightarrow> bool" where
  "check_event (Call c (Write n) rp en) = False"
| "check_event (Call c (Open_dev fl) rp en) = (fl AND O_ACCMODE = O_RDONLY)"
| "check_event e = True"

text \<open>
  \<open>extends A w w'\<close>: the trace of \<open>w'\<close> is the trace of \<open>w\<close> with new events in front,
  and all the new events are of the kind \<open>A\<close>.
\<close>

definition extends :: "(event \<Rightarrow> bool) \<Rightarrow> world \<Rightarrow> world \<Rightarrow> bool" where
  "extends A w w' = (\<exists>evs. trace w' = evs @ trace w \<and> list_all A evs)"

section \<open>A simulated device\<close>

text \<open>
  The examples run the program on a small device with faults at chosen sectors: a
  media defect (reads that touch the sector fail with \<^verbatim>\<open>EIO\<close> until the sector has
  been written), a read that fails with another error number, or a seek that fails. The
  file position is the offset of the last successful seek; the clock advances by one
  second with every event.
\<close>

datatype fault = Media | Read_errno int | Seek_errno int

fun seek_pos :: "event \<Rightarrow> nat option" where
  "seek_pos (Call c (Lseek64 b) (Ok k) en) = Some (unat b)"
| "seek_pos e = None"

primrec position :: "event list \<Rightarrow> nat" where
  "position [] = 0"
| "position (e # h) = (case seek_pos e of Some b \<Rightarrow> b | None \<Rightarrow> position h)"

fun is_good_write :: "event \<Rightarrow> bool" where
  "is_good_write (Call c (Write n) (Ok k) en) = True"
| "is_good_write e = False"

primrec written_at :: "event list \<Rightarrow> nat list" where
  "written_at [] = []"
| "written_at (e # h) = (if is_good_write e then [position h] else []) @ written_at h"

fun read_fault :: "(nat \<times> fault) list \<Rightarrow> event list \<Rightarrow> nat \<Rightarrow> nat \<Rightarrow> int option" where
  "read_fault [] h lo hi = None"
| "read_fault ((s, f) # fs) h lo hi =
     (if lo \<le> s \<and> s < hi then
        case f of
          Media \<Rightarrow> if 512 * s \<in> set (written_at h) then read_fault fs h lo hi else Some EIO
        | Read_errno e \<Rightarrow> Some e
        | Seek_errno e \<Rightarrow> read_fault fs h lo hi
      else read_fault fs h lo hi)"

fun sim_sys :: "(nat \<times> fault) list \<Rightarrow> event list \<Rightarrow> caller \<Rightarrow> request \<Rightarrow> reply" where
  "sim_sys faults h c (Lseek64 b) =
     (case map_of faults (unat b div 512) of
        Some (Seek_errno e) \<Rightarrow> Fail e
      | _ \<Rightarrow> Ok (unat b))"
| "sim_sys faults h c (Read n) =
     (case read_fault faults h (position h div 512) ((position h + unat n + 511) div 512) of
        Some e \<Rightarrow> Fail e
      | None \<Rightarrow> Ok (unat n))"
| "sim_sys faults h c (Write n) = Ok (unat n)"
| "sim_sys faults h c (Getrandom n) = Ok (unat n)"
| "sim_sys faults h c (Open_dev fl) = Ok 3"
| "sim_sys faults h c rq = Ok 0"

definition sim_env :: "(nat \<times> fault) list \<Rightarrow> u64 \<Rightarrow> env" where
  "sim_env faults bytes =
     \<lparr> sys = sim_sys faults,
       clock = (\<lambda>h. \<lparr> tv_sec = 1000 + int (length h), tv_usec = 0 \<rparr>),
       blkgetsize64 = (\<lambda>h. bytes) \<rparr>"

text \<open>
  For the reporter alone: an environment whose clock shows a fixed time, and a state of
  the process in which a progress line was printed at second 100, ten seconds after the
  start.
\<close>

definition fixed_clock_env :: "timeval \<Rightarrow> env" where
  "fixed_clock_env t = \<lparr> sys = sim_sys [], clock = (\<lambda>h. t), blkgetsize64 = (\<lambda>h. 0) \<rparr>"

definition reported_world :: world where
  "reported_world =
     \<lparr> trace = [Flush, Print (Progress_line 50 0 10 5 (1 / 2)), Print Clear_line,
                Clock \<lparr> tv_sec = 100, tv_usec = 0 \<rparr>],
       errno = 0,
       start_time = \<lparr> tv_sec = 90, tv_usec = 0 \<rparr>,
       end_time = \<lparr> tv_sec = 100, tv_usec = 0 \<rparr> \<rparr>"

text \<open>The settings of \<^verbatim>\<open>main\<close> without options, and with a chunk of four sectors.\<close>

definition default_config :: config where
  "default_config = \<lparr> debug = False, randomize = False, open_flags = O_DIRECT,
                       block_sectors = 8192 \<rparr>"

definition small_config :: config where
  "small_config = default_config \<lparr> block_sectors := 4 \<rparr>"

declare sector_loop.simps [simp del] fill_loop.simps [simp del]

section \<open>The superblock dump: byte order\<close>

lemma byte_of_le_word_0:
  "8 \<le> LENGTH('a) \<Longrightarrow> byte_of (le_word (b # bs) :: 'a::len word) 0 = b"
  apply (simp add: byte_of_def)
  apply (rule bit_word_eqI)
  apply (auto simp add: bit_simps)
  done

lemma byte_of_le_word_Suc:
  "8 * i + 16 \<le> LENGTH('a) \<Longrightarrow>
   byte_of (le_word (b # bs) :: 'a::len word) (Suc i) = byte_of (le_word bs :: 'a word) i"
  apply (simp add: byte_of_def)
  apply (rule bit_word_eqI)
  apply (auto simp add: bit_simps dest: bit_imp_le_length)
  done

lemma bswap_16_le_word: "bswap_16 (le_word [a, b]) = le_word [b, a]"
  unfolding bswap_16_def
  by (simp add: byte_of_le_word_Suc byte_of_le_word_0 del: le_word.simps)

lemma bswap_32_le_word: "bswap_32 (le_word [a, b, c, d]) = le_word [d, c, b, a]"
  unfolding bswap_32_def
  by (simp add: eval_nat_numeral byte_of_le_word_Suc byte_of_le_word_0 del: le_word.simps)

lemma bswap_64_le_word:
  "bswap_64 (le_word [a, b, c, d, e, f, g, h]) = le_word [h, g, f, e, d, c, b, a]"
  unfolding bswap_64_def
  by (simp add: eval_nat_numeral byte_of_le_word_Suc byte_of_le_word_0 del: le_word.simps)

lemma list_of_length_2: "length xs = 2 \<Longrightarrow> xs = [xs ! 0, xs ! 1]"
  by (auto simp: list_eq_iff_nth_eq less_Suc_eq nth_Cons' eval_nat_numeral)

lemma list_of_length_4: "length xs = 4 \<Longrightarrow> xs = [xs ! 0, xs ! 1, xs ! 2, xs ! 3]"
  by (auto simp: list_eq_iff_nth_eq less_Suc_eq nth_Cons' eval_nat_numeral)

lemma list_of_length_8:
  "length xs = 8 \<Longrightarrow> xs = [xs ! 0, xs ! 1, xs ! 2, xs ! 3, xs ! 4, xs ! 5, xs ! 6, xs ! 7]"
  by (auto simp: list_eq_iff_nth_eq less_Suc_eq nth_Cons' eval_nat_numeral)

lemma le16toh_host_word:
  assumes "length bs = 2"
  shows "le16toh h (host_word h bs) = le_word bs"
proof -
  obtain a b where bs: "bs = [a, b]"
    using list_of_length_2 [OF assms] by blast
  show ?thesis
    unfolding bs le16toh_def host_word_def
    by (cases h) (simp_all add: bswap_16_le_word del: le_word.simps)
qed

lemma le32toh_host_word:
  assumes "length bs = 4"
  shows "le32toh h (host_word h bs) = le_word bs"
proof -
  obtain a b c d where bs: "bs = [a, b, c, d]"
    using list_of_length_4 [OF assms] by blast
  show ?thesis
    unfolding bs le32toh_def host_word_def
    by (cases h) (simp_all add: bswap_32_le_word del: le_word.simps)
qed

lemma le64toh_host_word:
  assumes "length bs = 8"
  shows "le64toh h (host_word h bs) = le_word bs"
proof -
  obtain a b c d e f g k where bs: "bs = [a, b, c, d, e, f, g, k]"
    using list_of_length_8 [OF assms] by blast
  show ?thesis
    unfolding bs le64toh_def host_word_def
    by (cases h) (simp_all add: bswap_64_le_word del: le_word.simps)
qed

lemma sb_memory_full:
  "header_read env = Read_bytes bs \<Longrightarrow> length bs = 24 \<Longrightarrow> sb_memory env = bs"
  by (simp add: sb_memory_def sb_size_def list_eq_iff_nth_eq)

text \<open>
  Claim C7. When the device opens and the read delivers all 24 bytes, the dump fails with
  the report "No header detected" exactly when the first eight bytes differ from
  \<^verbatim>\<open>"integrt"\<close> plus a zero byte or the version byte differs from 1. Otherwise it
  succeeds and prints the signed byte at offset 9 and the little-endian values of the
  2-byte, 4-byte and 8-byte fields at offsets 10, 12 and 16, whatever the byte order of
  the host.
\<close>

theorem dump_header_check:
  assumes opened: "ret_val (open_reply env) \<noteq> - 1"
    and rd: "header_read env = Read_bytes bs"
    and len: "length bs = 24"
  shows "cmd_dump env (Some name) =
     (if take 8 bs \<noteq> SB_MAGIC \<or> bs ! 8 \<noteq> 1
      then (EXIT_FAILURE, [No_header name])
      else (EXIT_SUCCESS,
            [Info_device name,
             Field ''log2_interleave_sectors'' (sint (bs ! 9)),
             Field ''integrity_tag_size'' (uint (le_word (take 2 (drop 10 bs)) :: u16)),
             Field ''journal_sections'' (uint (le_word (take 4 (drop 12 bs)) :: u32)),
             Field ''provided_data_sectors'' (uint (le_word (take 8 (drop 16 bs)) :: u64))]))"
proof -
  have mem: "sb_memory env = bs"
    using rd len by (rule sb_memory_full)
  have l2: "length (take 2 (drop 10 bs)) = 2"
    and l4: "length (take 4 (drop 12 bs)) = 4"
    and l8: "length (drop 16 bs) = 8"
    using len by simp_all
  show ?thesis
    using opened
    by (simp add: cmd_dump_def read_superblock_def mem rd len sb_size_def sb_overlay_def
        SB_VERSION_def EXIT_FAILURE_def EXIT_SUCCESS_def Let_def
        le16toh_host_word [OF l2] le32toh_host_word [OF l4] le64toh_host_word [OF l8])
qed


theorem dump_header_check_witness:
  "cmd_dump \<lparr> host = Big_endian, open_reply = Ok 3,
              header_read = Read_bytes [0x69, 0x6E, 0x74, 0x65, 0x67, 0x72, 0x74, 0, 1, 0xFB,
                                        0x10, 0, 0x03, 0x02, 0x01, 0,
                                        0x08, 0x07, 0x06, 0x05, 0x04, 0x03, 0x02, 0x01],
              stack = (\<lambda>i. 0) \<rparr> (Some ''sda'')
     = (0, [Info_device ''sda'', Field ''log2_interleave_sectors'' (- 5),
            Field ''integrity_tag_size'' 16, Field ''journal_sections'' 66051,
            Field ''provided_data_sectors'' 72623859790382856])
   \<and> cmd_dump \<lparr> host = Little_endian, open_reply = Ok 3,
              header_read = Read_bytes [0x69, 0x6E, 0x74, 0x65, 0x67, 0x72, 0x74, 0, 2, 0xFB,
                                        0x10, 0, 0x03, 0x02, 0x01, 0,
                                        0x08, 0x07, 0x06, 0x05, 0x04, 0x03, 0x02, 0x01],
              stack = (\<lambda>i. 0) \<rparr> (Some ''sda'')
     = (1, [No_header ''sda''])"
  using dump_header_check [of "\<lparr> host = Big_endian, open_reply = Ok 3,
              header_read = Read_bytes [0x69, 0x6E, 0x74, 0x65, 0x67, 0x72, 0x74, 0, 1, 0xFB,
                                        0x10, 0, 0x03, 0x02, 0x01, 0,
                                        0x08, 0x07, 0x06, 0x05, 0x04, 0x03, 0x02, 0x01],
              stack = (\<lambda>i. 0) \<rparr>" _ "''sda''"]
    dump_header_check [of "\<lparr> host = Little_endian, open_reply = Ok 3,
              header_read = Read_bytes [0x69, 0x6E, 0x74, 0x65, 0x67, 0x72, 0x74, 0, 2, 0xFB,
                                        0x10, 0, 0x03, 0x02, 0x01, 0,
                                        0x08, 0x07, 0x06, 0x05, 0x04, 0x03, 0x02, 0x01],
              stack = (\<lambda>i. 0) \<rparr>" _ "''sda''"]
  by (simp add: SB_MAGIC_def EXIT_FAILURE_def EXIT_SUCCESS_def)

lemma read_superblock_status:
  "read_superblock env device = (r, out, sb) \<Longrightarrow>
   (r = EXIT_SUCCESS \<and> out = []) \<or> (r = EXIT_FAILURE \<and> (out = [] \<or> (\<exists>name. out = [No_header name])))"
  by (auto simp: read_superblock_def Let_def split: option.splits if_splits)

text \<open>
  Claim C9. When the device opens and the read of the header fails or delivers a number
  of bytes other than 24, the dump fails with the same report "No header detected".
  Whenever the dump fails, for whatever reason, it prints no field value.
\<close>

theorem dump_short_read:
  "(ret_val (open_reply env) \<noteq> - 1 \<and> read_count (header_read env) \<noteq> 24
      \<longrightarrow> cmd_dump env (Some name) = (EXIT_FAILURE, [No_header name]))
   \<and> (fst (cmd_dump env device) \<noteq> 0 \<longrightarrow> filter is_field (snd (cmd_dump env device)) = [])"
proof (intro conjI impI)
  assume "ret_val (open_reply env) \<noteq> - 1 \<and> read_count (header_read env) \<noteq> 24"
  then show "cmd_dump env (Some name) = (EXIT_FAILURE, [No_header name])"
    by (simp add: cmd_dump_def read_superblock_def sb_size_def EXIT_FAILURE_def Let_def)
next
  assume fail: "fst (cmd_dump env device) \<noteq> 0"
  obtain r out sb where rs: "read_superblock env device = (r, out, sb)"
    by (cases "read_superblock env device") auto
  from fail rs have "r \<noteq> 0" and out: "snd (cmd_dump env device) = out"
    by (auto simp: cmd_dump_def EXIT_SUCCESS_def split: if_splits)
  with read_superblock_status [OF rs] have "out = [] \<or> (\<exists>name. out = [No_header name])"
    by (auto simp: EXIT_SUCCESS_def)
  then show "filter is_field (snd (cmd_dump env device)) = []"
    unfolding out by auto
qed

theorem dump_short_read_witness:
  "cmd_dump \<lparr> host = Little_endian, open_reply = Ok 3,
              header_read = Read_bytes [0x69, 0x6E, 0x74, 0x65, 0x67, 0x72, 0x74, 0, 1, 0xFB],
              stack = (\<lambda>i. 0) \<rparr> (Some ''sda'') = (1, [No_header ''sda''])
   \<and> filter is_field (snd (cmd_dump \<lparr> host = Little_endian, open_reply = Ok 3,
              header_read = Read_bytes [0x69, 0x6E, 0x74, 0x65, 0x67, 0x72, 0x74, 0, 1, 0xFB],
              stack = (\<lambda>i. 0) \<rparr> (Some ''sda''))) = []"
  using dump_short_read [of "\<lparr> host = Little_endian, open_reply = Ok 3,
              header_read = Read_bytes [0x69, 0x6E, 0x74, 0x65, 0x67, 0x72, 0x74, 0, 1, 0xFB],
              stack = (\<lambda>i. 0) \<rparr>" "''sda''" "Some ''sda''"]
  by (simp add: EXIT_FAILURE_def)


section \<open>The engine: what each part adds to the trace\<close>

lemma extends_refl: "extends A w w"
  by (simp add: extends_def)

lemma extends_trans: "extends A w w1 \<Longrightarrow> extends A w1 w2 \<Longrightarrow> extends A w w2"
  by (auto simp: extends_def)

lemma extends_mono: "extends A w w' \<Longrightarrow> (\<And>e. A e \<Longrightarrow> B e) \<Longrightarrow> extends B w w'"
  by (auto simp: extends_def list_all_iff)

lemma extends_event: "trace w' = e # trace w \<Longrightarrow> A e \<Longrightarrow> extends A w w'"
  by (auto simp: extends_def intro: exI [of _ "[e]"])

lemma syscall_trace:
  "syscall env c rq w = (rp, w') \<Longrightarrow> trace w' = Call c rq rp (errno w') # trace w"
  by (auto simp: syscall_def Let_def)

lemma syscall_errno:
  "syscall env c rq w = (rp, w') \<Longrightarrow> errno w' = (case rp of Ok n \<Rightarrow> errno w | Fail e \<Rightarrow> e)"
  by (auto simp: syscall_def Let_def)

lemma syscall_times:
  "syscall env c rq w = (rp, w') \<Longrightarrow> start_time w' = start_time w \<and> end_time w' = end_time w"
  by (auto simp: syscall_def Let_def)

lemma syscall_extends:
  "syscall env c rq w = (rp, w') \<Longrightarrow> (\<And>en. A (Call c rq rp en)) \<Longrightarrow> extends A w w'"
  by (rule extends_event [OF syscall_trace])

lemma printf_trace [simp]: "trace (printf m w) = Print m # trace w"
  by (simp add: printf_def)

lemma fflush_trace [simp]: "trace (fflush w) = Flush # trace w"
  by (simp add: fflush_def)

lemma clear_line_trace [simp]: "trace (clear_line w) = Print Clear_line # trace w"
  by (simp add: clear_line_def)

lemma printf_fields [simp]:
  "errno (printf m w) = errno w" "start_time (printf m w) = start_time w"
  "end_time (printf m w) = end_time w"
  by (simp_all add: printf_def)

lemma fflush_fields [simp]:
  "errno (fflush w) = errno w" "start_time (fflush w) = start_time w"
  "end_time (fflush w) = end_time w"
  by (simp_all add: fflush_def)

lemma clear_line_fields [simp]:
  "errno (clear_line w) = errno w" "start_time (clear_line w) = start_time w"
  "end_time (clear_line w) = end_time w"
  by (simp_all add: clear_line_def)

lemma printf_extends: "A (Print m) \<Longrightarrow> extends A w (printf m w)"
  by (rule extends_event) simp_all

lemma fflush_extends: "A Flush \<Longrightarrow> extends A w (fflush w)"
  by (rule extends_event) simp_all

lemma get_random_extends:
  "get_random fuel env n w = (r, w') \<Longrightarrow> extends randomizer_event w w'"
proof (induction fuel arbitrary: n w)
  case 0
  then show ?case by (simp add: extends_refl)
next
  case (Suc fuel)
  obtain rp w1 where sc: "syscall env Randomizer (Getrandom n) w = (rp, w1)"
    by (cases "syscall env Randomizer (Getrandom n) w") auto
  have e1: "extends randomizer_event w w1"
    by (rule syscall_extends [OF sc]) simp
  from Suc.prems sc have "w' = w1 \<or> (\<exists>n'. get_random fuel env n' w1 = (r, w'))"
    by (auto simp: Let_def split: if_splits)
  then show ?case
  proof
    assume "w' = w1"
    with e1 show ?thesis by simp
  next
    assume "\<exists>n'. get_random fuel env n' w1 = (r, w')"
    then obtain n' where "get_random fuel env n' w1 = (r, w')" ..
    then have "extends randomizer_event w1 w'" by (rule Suc.IH)
    with e1 show ?thesis by (rule extends_trans)
  qed
qed

lemma init_sector_extends:
  "init_sector rfuel cfg env w = (r, w') \<Longrightarrow> extends randomizer_event w w'"
  by (auto simp: init_sector_def extends_refl split: if_splits dest: get_random_extends)

lemma init_sector_off:
  "\<not> randomize cfg \<Longrightarrow> init_sector rfuel cfg env w = (Inr (), w)"
  by (simp add: init_sector_def)

lemma fill_loop_extends:
  "fill_loop rfuel cfg env n s w = (r, w') \<Longrightarrow> extends randomizer_event w w'"
proof (induction rfuel cfg env n s w rule: fill_loop.induct)
  case (1 rfuel cfg env n s w)
  show ?case
  proof (cases "s < n")
    case False
    with "1.prems" show ?thesis by (simp add: extends_refl fill_loop.simps)
  next
    case True
    obtain r1 w1 where i: "init_sector rfuel cfg env w = (r1, w1)"
      by (cases "init_sector rfuel cfg env w") auto
    have e1: "extends randomizer_event w w1"
      by (rule init_sector_extends [OF i])
    show ?thesis
    proof (cases r1)
      case (Inl h)
      with "1.prems" True i e1 show ?thesis by (simp add: fill_loop.simps)
    next
      case (Inr u)
      with "1.prems" True i have "fill_loop rfuel cfg env n (s + 1) w1 = (r, w')"
        by (simp add: fill_loop.simps)
      from "1.IH" [OF True i [symmetric] _ this] Inr have "extends randomizer_event w1 w'"
        by simp
      with e1 show ?thesis by (rule extends_trans)
    qed
  qed
qed


lemma reply_nonneg: "\<not> ret_val rp < 0 \<Longrightarrow> \<exists>k. rp = Ok k"
  by (cases rp) auto

lemma check_sector_cases:
  assumes cs: "check_sector rfuel cfg env dc sector w = (r, w')"
  obtains
    (seek_failed) r1 e1 where
      "r = Inr Return_void" "ret_val r1 < 0"
      "trace w' = [Print (Seek_error sector e1), Call Fallback (Lseek64 (sector * 512)) r1 e1] @ trace w"
  | (healthy) k1 e1 r2 e2 where
      "r = Inr Continue" "ret_val r2 = 512"
      "trace w' = [Call Fallback (Read 512) r2 e2, Call Fallback (Lseek64 (sector * 512)) (Ok k1) e1] @ trace w"
  | (unexpected) k1 e1 r2 e2 where
      "r = Inr Return_void" "ret_val r2 \<noteq> 512" "e2 \<noteq> EIO" "e2 \<noteq> EILSEQ"
      "trace w' = [Print (Error_sector sector e2), Call Fallback (Read 512) r2 e2,
                   Call Fallback (Lseek64 (sector * 512)) (Ok k1) e1] @ trace w"
  | (reported) k1 e1 r2 e2 where
      "r = Inr Continue" "ret_val r2 \<noteq> 512" "e2 = EIO \<or> e2 = EILSEQ" "dc \<noteq> DEV_FIX"
      "trace w' = [Print (IO_error_sector sector), Call Fallback (Read 512) r2 e2,
                   Call Fallback (Lseek64 (sector * 512)) (Ok k1) e1] @ trace w"
  | (init_halted) k1 e1 r2 e2 h rnd where
      "r = Inl h" "ret_val r2 \<noteq> 512" "e2 = EIO \<or> e2 = EILSEQ" "dc = DEV_FIX"
      "list_all randomizer_event rnd"
      "trace w' = rnd @ [Call Fallback (Read 512) r2 e2,
                   Call Fallback (Lseek64 (sector * 512)) (Ok k1) e1] @ trace w"
  | (reseek_failed) k1 e1 r2 e2 rnd r4 e4 where
      "r = Inr Continue" "ret_val r2 \<noteq> 512" "e2 = EIO \<or> e2 = EILSEQ" "dc = DEV_FIX"
      "list_all randomizer_event rnd" "ret_val r4 < 0"
      "trace w' = [Print (Seek_error sector e4), Call Fallback (Lseek64 (sector * 512)) r4 e4] @ rnd
                   @ [Call Fallback (Read 512) r2 e2,
                      Call Fallback (Lseek64 (sector * 512)) (Ok k1) e1] @ trace w"
  | (rewritten) k1 e1 r2 e2 rnd k4 e4 r5 e5 m where
      "r = Inr Continue" "ret_val r2 \<noteq> 512" "e2 = EIO \<or> e2 = EILSEQ" "dc = DEV_FIX"
      "list_all randomizer_event rnd"
      "m = (if ret_val r5 \<noteq> 512 then Error_sector sector e5 else Bad_sector_wiped sector)"
      "trace w' = [Print m, Call Fallback (Write 512) r5 e5,
                   Call Fallback (Lseek64 (sector * 512)) (Ok k4) e4] @ rnd
                   @ [Call Fallback (Read 512) r2 e2,
                      Call Fallback (Lseek64 (sector * 512)) (Ok k1) e1] @ trace w"
proof -
  obtain r1 w1 where s1: "syscall env Fallback (Lseek64 (sector * 512)) w = (r1, w1)"
    by (cases "syscall env Fallback (Lseek64 (sector * 512)) w") auto
  note t1 = syscall_trace [OF s1]
  show thesis
  proof (cases "ret_val r1 < 0")
    case True
    with cs s1 t1 show thesis
      by (intro seek_failed [of r1 "errno w1"]) (auto simp: check_sector_def)
  next
    case ok1: False
    then obtain k1 where k1: "r1 = Ok k1"
      using reply_nonneg by blast
    obtain r2 w2 where s2: "syscall env Fallback (Read 512) w1 = (r2, w2)"
      by (cases "syscall env Fallback (Read 512) w1") auto
    note t2 = syscall_trace [OF s2]
    show thesis
    proof (cases "ret_val r2 = 512")
      case True
      with cs s1 s2 t1 t2 ok1 k1 show thesis
        by (intro healthy [of r2 "errno w2" k1 "errno w1"]) (auto simp: check_sector_def)
    next
      case bad: False
      show thesis
      proof (cases "errno w2 \<noteq> EIO \<and> errno w2 \<noteq> EILSEQ")
        case True
        with cs s1 s2 t1 t2 ok1 k1 bad show thesis
          by (intro unexpected [of r2 "errno w2" k1 "errno w1"]) (auto simp: check_sector_def)
      next
        case media: False
        show thesis
        proof (cases "dc \<noteq> DEV_FIX")
          case True
          with cs s1 s2 t1 t2 ok1 k1 bad media show thesis
            by (intro reported [of r2 "errno w2" k1 "errno w1"]) (auto simp: check_sector_def)
        next
          case fixm: False
          obtain r3 w3 where s3: "init_sector rfuel cfg env w2 = (r3, w3)"
            by (cases "init_sector rfuel cfg env w2") auto
          from init_sector_extends [OF s3] obtain rnd
            where t3: "trace w3 = rnd @ trace w2" and rnd: "list_all randomizer_event rnd"
            by (auto simp: extends_def)
          show thesis
          proof (cases r3)
            case (Inl h)
            with cs s1 s2 s3 t1 t2 t3 rnd ok1 k1 bad media fixm show thesis
              by (intro init_halted [of h r2 "errno w2" rnd k1 "errno w1"])
                 (auto simp: check_sector_def)
          next
            case (Inr u)
            obtain r4 w4 where s4: "syscall env Fallback (Lseek64 (sector * 512)) w3 = (r4, w4)"
              by (cases "syscall env Fallback (Lseek64 (sector * 512)) w3") auto
            note t4 = syscall_trace [OF s4]
            show thesis
            proof (cases "ret_val r4 < 0")
              case True
              with cs s1 s2 s3 s4 t1 t2 t3 t4 rnd ok1 k1 bad media fixm Inr show thesis
                by (intro reseek_failed [of r2 "errno w2" rnd r4 "errno w4" k1 "errno w1"])
                   (auto simp: check_sector_def)
            next
              case ok4: False
              then obtain k4 where k4: "r4 = Ok k4"
                using reply_nonneg by blast
              obtain r5 w5 where s5: "syscall env Fallback (Write 512) w4 = (r5, w5)"
                by (cases "syscall env Fallback (Write 512) w4") auto
              note t5 = syscall_trace [OF s5]
              from cs s1 s2 s3 s4 s5 t1 t2 t3 t4 t5 rnd ok1 k1 ok4 k4 bad media fixm Inr
              show thesis
                by (intro rewritten [of r2 "errno w2" rnd _ r5 "errno w5" k4 "errno w4" k1 "errno w1"])
                   (auto simp: check_sector_def split: if_splits)
            qed
          qed
        qed
      qed
    qed
  qed
qed


lemma check_sector_trace:
  assumes "check_sector rfuel cfg env dc sector w = (r, w')"
  shows "\<exists>evs. trace w' = evs @ trace w"
  using assms by (cases rule: check_sector_cases) auto

lemma sector_loop_events:
  assumes run: "sector_loop rfuel cfg env dc bound sector w = (r, w')"
    and step: "\<And>s w1 r1 w2 evs. check_sector rfuel cfg env dc s w1 = (r1, w2)
                 \<Longrightarrow> trace w2 = evs @ trace w1 \<Longrightarrow> P evs"
    and flush: "P [Flush]"
    and app: "\<And>a b. P a \<Longrightarrow> P b \<Longrightarrow> P (a @ b)"
  shows "\<exists>evs. trace w' = evs @ trace w \<and> P evs"
  using run step
proof (induction rfuel cfg env dc bound sector w rule: sector_loop.induct)
  case (1 rfuel cfg env dc bound sector w)
  note run = "1.prems"(1) and step = "1.prems"(2)
  show ?case
  proof (cases "sector < bound")
    case False
    with run have "trace w' = [Flush] @ trace w" by (auto simp: sector_loop.simps)
    with flush show ?thesis by blast
  next
    case True
    obtain r1 w1 where cs: "check_sector rfuel cfg env dc sector w = (r1, w1)"
      by (cases "check_sector rfuel cfg env dc sector w") auto
    from check_sector_trace [OF cs] obtain evs1 where t1: "trace w1 = evs1 @ trace w" ..
    have p1: "P evs1" by (rule step [OF cs t1])
    show ?thesis
    proof (cases "r1 = Inr Continue")
      case False
      with run True cs have "w' = w1"
        by (auto simp: sector_loop.simps split: sum.splits flow.splits)
      with t1 p1 show ?thesis by blast
    next
      case cont: True
      with run True cs
      have rec: "sector_loop rfuel cfg env dc bound (sector + 1) w1 = (r, w')"
        by (simp add: sector_loop.simps)
      have "\<exists>evs. trace w' = evs @ trace w1 \<and> P evs"
        by (rule "1.IH" [OF True cs [symmetric] cont refl rec]) (blast intro: step)
      then obtain evs2 where "trace w' = evs2 @ trace w1" and "P evs2" by auto
      with t1 p1 have "trace w' = (evs2 @ evs1) @ trace w" and "P (evs2 @ evs1)"
        by (auto intro: app)
      then show ?thesis by blast
    qed
  qed
qed

lemma randomizer_is_fallback: "randomizer_event e \<Longrightarrow> fallback_event DEV_FIX e"
  by (cases e rule: randomizer_event.cases) auto

lemma randomizers_are_fallback:
  "list_all randomizer_event rnd \<Longrightarrow> list_all (fallback_event DEV_FIX) rnd"
  by (induction rnd) (simp_all add: randomizer_is_fallback)

lemma check_sector_alphabet:
  assumes "check_sector rfuel cfg env dc sector w = (r, w')" "trace w' = evs @ trace w"
  shows "list_all (fallback_event dc) evs"
  using assms
  by (cases rule: check_sector_cases) (auto simp: randomizers_are_fallback)

lemma sector_loop_alphabet:
  assumes "sector_loop rfuel cfg env dc bound sector w = (r, w')"
  shows "extends (fallback_event dc) w w'"
  unfolding extends_def
  by (rule sector_loop_events [OF assms]) (auto dest: check_sector_alphabet)

lemma check_one_by_one_alphabet:
  assumes "check_one_by_one rfuel cfg env n off dc w = (r, w')"
  shows "extends (fallback_event dc) w w'"
proof -
  have "extends (fallback_event dc) w (clear_line w)"
    by (simp add: clear_line_def printf_extends)
  moreover have "extends (fallback_event dc) (clear_line w) w'"
    using assms unfolding check_one_by_one_def by (rule sector_loop_alphabet)
  ultimately show ?thesis by (rule extends_trans)
qed


lemma gettimeofday_eq:
  "gettimeofday env w = (clock env (trace w), w\<lparr> trace := Clock (clock env (trace w)) # trace w \<rparr>)"
  by (simp add: gettimeofday_def Let_def)

lemma print_progress_alphabet:
  assumes "print_progress env device_size bytes final w = (r, w')"
  shows "extends reporter_event w w'"
  using assms
  by (auto simp: print_progress_def gettimeofday_eq Let_def extends_def fdiv_def
      split: if_splits sum.splits)

lemma print_progress_trace:
  assumes "print_progress env device_size bytes final w = (r, w')"
  shows "\<exists>evs. trace w' = evs @ trace w \<and> list_all reporter_event evs"
  using print_progress_alphabet [OF assms] by (simp add: extends_def)

lemma fill_loop_trace:
  assumes "fill_loop rfuel cfg env n s w = (r, w')"
  shows "\<exists>evs. trace w' = evs @ trace w \<and> list_all randomizer_event evs"
  using fill_loop_extends [OF assms] by (simp add: extends_def)

lemma check_one_by_one_trace:
  assumes "check_one_by_one rfuel cfg env n off dc w = (r, w')"
  shows "\<exists>evs. trace w' = evs @ trace w \<and> list_all (fallback_event dc) evs"
  using check_one_by_one_alphabet [OF assms] by (simp add: extends_def)

lemma chunk_io_cases:
  assumes io: "chunk_io rfuel cfg env dc off n w = (r, w')"
  obtains
    (fill_halted) h rnd dbg where
      "dc = DEV_FORMAT" "r = Inl h" "list_all randomizer_event rnd"
      "dbg = (if debug cfg then [Print (Dbg_wipe off (off + n))] else [])"
      "trace w' = rnd @ dbg @ trace w"
  | (written) rnd dbg rp en err where
      "dc = DEV_FORMAT" "r = Inr ()" "list_all randomizer_event rnd"
      "dbg = (if debug cfg then [Print (Dbg_wipe off (off + n))] else [])"
      "err = (if ret_val rp \<noteq> sint (512 * n) then [Print (Write_error off)] else [])"
      "trace w' = err @ [Call Engine (Write (512 * n)) rp en] @ rnd @ dbg @ trace w"
  | (read_whole) rp en where
      "dc \<noteq> DEV_FORMAT" "r = Inr ()" "ret_val rp = sint (512 * n)"
      "trace w' = [Call Engine (Read (512 * n)) rp en] @ trace w"
  | (degraded) rp en w1 fb where
      "dc \<noteq> DEV_FORMAT" "ret_val rp \<noteq> sint (512 * n)"
      "trace w1 = Call Engine (Read (512 * n)) rp en # trace w"
      "check_one_by_one rfuel cfg env n off dc w1 = (r, w')"
      "trace w' = fb @ [Call Engine (Read (512 * n)) rp en] @ trace w"
proof (cases "dc = DEV_FORMAT")
  case True
  define dbg where "dbg = (if debug cfg then [Print (Dbg_wipe off (off + n))] else [])"
  define w1 where "w1 = (if debug cfg then printf (Dbg_wipe off (off + n)) w else w)"
  have t1: "trace w1 = dbg @ trace w"
    by (simp add: w1_def dbg_def)
  obtain r2 w2 where fl: "fill_loop rfuel cfg env n 0 w1 = (r2, w2)"
    by (cases "fill_loop rfuel cfg env n 0 w1") auto
  from fill_loop_trace [OF fl] obtain rnd
    where t2: "trace w2 = rnd @ trace w1" and rnd: "list_all randomizer_event rnd" by blast
  show thesis
  proof (cases r2)
    case (Inl h)
    with io True fl t1 t2 rnd show thesis
      by (intro fill_halted [where h = h and rnd = rnd and dbg = dbg])
         (auto simp: chunk_io_def w1_def dbg_def Let_def)
  next
    case (Inr u)
    obtain rp w3 where sc: "syscall env Engine (Write (512 * n)) w2 = (rp, w3)"
      by (cases "syscall env Engine (Write (512 * n)) w2") auto
    note t3 = syscall_trace [OF sc]
    from io True fl Inr sc t1 t2 t3 rnd show thesis
      by (intro written [where rnd = rnd and dbg = dbg and rp = rp and en = "errno w3"
              and err = "if ret_val rp \<noteq> sint (512 * n) then [Print (Write_error off)] else []"])
         (auto simp: chunk_io_def w1_def dbg_def Let_def split: if_splits)
  qed
next
  case False
  obtain rp w1 where sc: "syscall env Engine (Read (512 * n)) w = (rp, w1)"
    by (cases "syscall env Engine (Read (512 * n)) w") auto
  note t1 = syscall_trace [OF sc]
  show thesis
  proof (cases "ret_val rp = sint (512 * n)")
    case True
    with io False sc t1 show thesis
      by (intro read_whole [where rp = rp and en = "errno w1"]) (auto simp: chunk_io_def)
  next
    case short: False
    with io False sc have c: "check_one_by_one rfuel cfg env n off dc w1 = (r, w')"
      by (auto simp: chunk_io_def)
    from check_one_by_one_trace [OF c] obtain fb where "trace w' = fb @ trace w1" by blast
    with short False sc t1 c show thesis
      by (intro degraded [where rp = rp and en = "errno w1" and ?w1.0 = w1 and fb = fb]) auto
  qed
qed


lemma chunk_io_trace:
  assumes "chunk_io rfuel cfg env dc off n w = (r, w')"
  shows "\<exists>evs. trace w' = evs @ trace w"
  using assms by (cases rule: chunk_io_cases) auto

lemma chunk_pass_cases:
  assumes cp: "chunk_pass rfuel cfg env dc dev off w = (r, w')"
  obtains
    (seek_failed) r1 e1 rc e2 where
      "r = Inr (Abort EXIT_FAILURE)" "ret_val r1 < 0"
      "trace w' = [Call Engine Close rc e2, Print (Seek_error off e1),
                   Call Engine (Lseek64 (off * 512)) r1 e1] @ trace w"
  | (io_halted) h k1 e1 w1 io where
      "r = Inl h"
      "trace w1 = Call Engine (Lseek64 (off * 512)) (Ok k1) e1 # trace w"
      "chunk_io rfuel cfg env dc off (block_size_at cfg dev off) w1 = (Inl h, w')"
      "trace w' = io @ [Call Engine (Lseek64 (off * 512)) (Ok k1) e1] @ trace w"
  | (reported) k1 e1 w1 w3 io rr rep where
      "trace w1 = Call Engine (Lseek64 (off * 512)) (Ok k1) e1 # trace w"
      "chunk_io rfuel cfg env dc off (block_size_at cfg dev off) w1 = (Inr (), w3)"
      "trace w3 = io @ trace w1"
      "print_progress env (dev * 512) ((off + block_size_at cfg dev off) * 512) False w3 = (rr, w')"
      "list_all reporter_event rep"
      "trace w' = rep @ io @ [Call Engine (Lseek64 (off * 512)) (Ok k1) e1] @ trace w"
      "r = (case rr of Inl h \<Rightarrow> Inl h | Inr u \<Rightarrow> Inr (Advance (off + block_size_at cfg dev off)))"
proof -
  define n where "n = block_size_at cfg dev off"
  obtain r1 w1 where s1: "syscall env Engine (Lseek64 (off * 512)) w = (r1, w1)"
    by (cases "syscall env Engine (Lseek64 (off * 512)) w") auto
  note t1 = syscall_trace [OF s1]
  show thesis
  proof (cases "ret_val r1 < 0")
    case True
    obtain rc w2 where s2: "syscall env Engine Close (printf (Seek_error off (errno w1)) w1) = (rc, w2)"
      by (cases "syscall env Engine Close (printf (Seek_error off (errno w1)) w1)") auto
    note t2 = syscall_trace [OF s2]
    from cp s1 s2 t1 t2 True show thesis
      by (intro seek_failed [where ?r1.0 = r1 and ?e1.0 = "errno w1" and rc = rc and ?e2.0 = "errno w2"])
         (auto simp: chunk_pass_def Let_def)
  next
    case False
    then obtain k1 where k1: "r1 = Ok k1"
      using reply_nonneg by blast
    obtain rio w3 where io: "chunk_io rfuel cfg env dc off n w1 = (rio, w3)"
      by (cases "chunk_io rfuel cfg env dc off n w1") auto
    from chunk_io_trace [OF io] obtain ioe where t3: "trace w3 = ioe @ trace w1" ..
    show thesis
    proof (cases rio)
      case (Inl h)
      with cp s1 io t1 t3 False k1 show thesis
        by (intro io_halted [where h = h and ?k1.0 = k1 and ?e1.0 = "errno w1" and ?w1.0 = w1 and io = ioe])
           (auto simp: chunk_pass_def Let_def n_def)
    next
      case (Inr u)
      obtain rr w4 where pp: "print_progress env (dev * 512) ((off + n) * 512) False w3 = (rr, w4)"
        by (cases "print_progress env (dev * 512) ((off + n) * 512) False w3") auto
      from print_progress_trace [OF pp] obtain rep
        where t4: "trace w4 = rep @ trace w3" and rep: "list_all reporter_event rep" by blast
      from cp s1 io pp Inr False have w': "w' = w4"
        and r: "r = (case rr of Inl h \<Rightarrow> Inl h | Inr u \<Rightarrow> Inr (Advance (off + n)))"
        by (auto simp: chunk_pass_def Let_def n_def split: sum.splits)
      from io Inr pp t1 t3 t4 rep k1 w' r show thesis
        unfolding n_def
        by (intro reported [where ?k1.0 = k1 and ?e1.0 = "errno w1" and ?w1.0 = w1 and ?w3.0 = w3
              and io = ioe and rr = rr and rep = rep])
           auto
    qed
  qed
qed

lemma chunk_pass_trace:
  assumes "chunk_pass rfuel cfg env dc dev off w = (r, w')"
  shows "\<exists>evs. trace w' = evs @ trace w"
  using assms by (cases rule: chunk_pass_cases) auto

lemma chunk_loop_events:
  assumes run: "chunk_loop fuel rfuel cfg env dc dev off w = (r, w')"
    and step: "\<And>off w1 r1 w2 evs. chunk_pass rfuel cfg env dc dev off w1 = (r1, w2)
                 \<Longrightarrow> trace w2 = evs @ trace w1 \<Longrightarrow> P evs"
    and nil: "P []"
    and app: "\<And>a b. P a \<Longrightarrow> P b \<Longrightarrow> P (a @ b)"
  shows "\<exists>evs. trace w' = evs @ trace w \<and> P evs"
  using run
proof (induction fuel arbitrary: off w)
  case 0
  then show ?case using nil by simp
next
  case (Suc fuel)
  show ?case
  proof (cases "off < dev")
    case False
    with Suc.prems nil show ?thesis by simp
  next
    case True
    obtain r1 w1 where cp: "chunk_pass rfuel cfg env dc dev off w = (r1, w1)"
      by (cases "chunk_pass rfuel cfg env dc dev off w") auto
    from chunk_pass_trace [OF cp] obtain evs1 where t1: "trace w1 = evs1 @ trace w" ..
    have p1: "P evs1" by (rule step [OF cp t1])
    show ?thesis
    proof (cases "\<exists>nxt. r1 = Inr (Advance nxt)")
      case False
      with Suc.prems True cp have "w' = w1"
        by (auto split: sum.splits pass.splits)
      with t1 p1 show ?thesis by blast
    next
      case True
      then obtain nxt where "r1 = Inr (Advance nxt)" ..
      with Suc.prems \<open>off < dev\<close> cp
      have "chunk_loop fuel rfuel cfg env dc dev nxt w1 = (r, w')" by simp
      from Suc.IH [OF this] obtain evs2 where "trace w' = evs2 @ trace w1" and "P evs2"
        by auto
      with t1 p1 have "trace w' = (evs2 @ evs1) @ trace w" and "P (evs2 @ evs1)"
        by (auto intro: app)
      then show ?thesis by blast
    qed
  qed
qed


lemma chunk_loop_trace:
  assumes "chunk_loop fuel rfuel cfg env dc dev off w = (r, w')"
  shows "\<exists>evs. trace w' = evs @ trace w"
  using chunk_loop_events [OF assms, where P = "\<lambda>evs. True"] by auto

lemma rw_sectors_cases:
  assumes rw: "rw_sectors fuel rfuel cfg env off dev dc w = (r, w')"
  obtains
    (alloc_failed) ra e0 where
      "r = Inr EXIT_FAILURE" "ret_val ra \<noteq> 0"
      "trace w' = [Call Engine (Posix_memalign (buffer_bytes cfg)) ra e0] @ trace w"
  | (open_failed) ra e0 ro e1 where
      "r = Inr EXIT_FAILURE" "ret_val ra = 0" "ret_val ro = - 1"
      "trace w' = [Call Engine (Open_dev (engine_flags cfg dc)) ro e1,
                   Call Engine (Posix_memalign (buffer_bytes cfg)) ra e0] @ trace w"
  | (stopped) ra e0 k e1 w2 rl lp where
      "ret_val ra = 0"
      "trace w2 = [Call Engine (Open_dev (engine_flags cfg dc)) (Ok k) e1,
                   Call Engine (Posix_memalign (buffer_bytes cfg)) ra e0] @ trace w"
      "chunk_loop fuel rfuel cfg env dc dev off w2 = (rl, w')"
      "trace w' = lp @ trace w2"
      "(\<exists>h. rl = Inl h \<and> r = Inl h) \<or> (\<exists>c. rl = Inr (Return c) \<and> r = Inr c)"
  | (completed) ra e0 k e1 w2 off_end w3 lp rf e4 msg rc e6 w6 rr where
      "ret_val ra = 0"
      "trace w2 = [Call Engine (Open_dev (engine_flags cfg dc)) (Ok k) e1,
                   Call Engine (Posix_memalign (buffer_bytes cfg)) ra e0] @ trace w"
      "chunk_loop fuel rfuel cfg env dc dev off w2 = (Inr (Fallthrough off_end), w3)"
      "trace w3 = lp @ trace w2"
      "msg = (if ret_val rf < 0 then [Print (Fsync_failed e4)] else [])"
      "trace w6 = [Call Engine Close rc e6] @ msg @ [Call Engine Fsync rf e4] @ trace w3"
      "print_progress env (dev * 512) (off_end * 512) True w6 = (rr, w')"
      "r = (case rr of Inl h \<Rightarrow> Inl h | Inr u \<Rightarrow> Inr 0)"
proof -
  obtain ra w1 where s1: "syscall env Engine (Posix_memalign (buffer_bytes cfg)) w = (ra, w1)"
    by (cases "syscall env Engine (Posix_memalign (buffer_bytes cfg)) w") auto
  note t1 = syscall_trace [OF s1]
  show thesis
  proof (cases "ret_val ra \<noteq> 0")
    case True
    with rw s1 t1 show thesis
      by (intro alloc_failed [where ra = ra and ?e0.0 = "errno w1"])
         (auto simp: rw_sectors_def buffer_bytes_def)
  next
    case alloc: False
    obtain ro w2 where s2: "syscall env Engine (Open_dev (engine_flags cfg dc)) w1 = (ro, w2)"
      by (cases "syscall env Engine (Open_dev (engine_flags cfg dc)) w1") auto
    note t2 = syscall_trace [OF s2]
    show thesis
    proof (cases "ret_val ro = - 1")
      case True
      with rw s1 s2 t1 t2 alloc show thesis
        by (intro open_failed [where ra = ra and ?e0.0 = "errno w1" and ro = ro and ?e1.0 = "errno w2"])
           (auto simp: rw_sectors_def buffer_bytes_def engine_flags_def Let_def)
    next
      case opened: False
      then obtain k where k: "ro = Ok k"
        by (cases ro) auto
      obtain rl w3 where cl: "chunk_loop fuel rfuel cfg env dc dev off w2 = (rl, w3)"
        by (cases "chunk_loop fuel rfuel cfg env dc dev off w2") auto
      from chunk_loop_trace [OF cl] obtain lp where t3: "trace w3 = lp @ trace w2" ..
      have t2': "trace w2 = [Call Engine (Open_dev (engine_flags cfg dc)) (Ok k) (errno w2),
                   Call Engine (Posix_memalign (buffer_bytes cfg)) ra (errno w1)] @ trace w"
        using t1 t2 k by simp
      show thesis
      proof (cases "\<exists>off_end. rl = Inr (Fallthrough off_end)")
        case False
        with rw s1 s2 cl alloc opened
        have "w' = w3" and "(\<exists>h. rl = Inl h \<and> r = Inl h) \<or> (\<exists>c. rl = Inr (Return c) \<and> r = Inr c)"
          by (auto simp: rw_sectors_def buffer_bytes_def engine_flags_def Let_def
              split: sum.splits loop_exit.splits)
        with cl t2' t3 alloc show thesis
          by (intro stopped [where ra = ra and k = k and ?w2.0 = w2 and rl = rl and lp = lp]) auto
      next
        case True
        then obtain off_end where fin: "rl = Inr (Fallthrough off_end)" ..
        obtain rf w4 where s4: "syscall env Engine Fsync w3 = (rf, w4)"
          by (cases "syscall env Engine Fsync w3") auto
        note t4 = syscall_trace [OF s4]
        define w5 where "w5 = (if ret_val rf < 0 then printf (Fsync_failed (errno w4)) w4 else w4)"
        define msg where "msg = (if ret_val rf < 0 then [Print (Fsync_failed (errno w4))] else [])"
        have t5: "trace w5 = msg @ trace w4"
          by (simp add: w5_def msg_def)
        obtain rc w6 where s6: "syscall env Engine Close w5 = (rc, w6)"
          by (cases "syscall env Engine Close w5") auto
        note t6 = syscall_trace [OF s6]
        obtain rr w7 where pp: "print_progress env (dev * 512) (off_end * 512) True w6 = (rr, w7)"
          by (cases "print_progress env (dev * 512) (off_end * 512) True w6") auto
        from rw s1 s2 cl fin s4 s6 pp alloc opened
        have w': "w' = w7" and r: "r = (case rr of Inl h \<Rightarrow> Inl h | Inr u \<Rightarrow> Inr 0)"
          by (auto simp: rw_sectors_def buffer_bytes_def engine_flags_def Let_def w5_def
              split: sum.splits)
        have t6': "trace w6 = [Call Engine Close rc (errno w6)] @ msg @ [Call Engine Fsync rf (errno w4)] @ trace w3"
          using t4 t5 t6 by simp
        from cl fin t2' t3 t6' pp w' r alloc show thesis
          by (intro completed [where ra = ra and k = k and ?w2.0 = w2 and off_end = off_end
                and ?w3.0 = w3 and lp = lp and rf = rf and ?e4.0 = "errno w4" and msg = msg
                and rc = rc and ?e6.0 = "errno w6" and ?w6.0 = w6 and rr = rr])
             (auto simp: msg_def)
      qed
    qed
  qed
qed


section \<open>Running the model on concrete inputs\<close>

lemma chunk_loop_unfold:
  "chunk_loop fuel rfuel cfg env dc dev off w =
     (if fuel = 0 then (Inl Out_of_fuel, w)
      else if off < dev then
        case chunk_pass rfuel cfg env dc dev off w of
          (Inl h, w1) \<Rightarrow> (Inl h, w1)
        | (Inr (Abort c), w1) \<Rightarrow> (Inr (Return c), w1)
        | (Inr (Advance nxt), w1) \<Rightarrow> chunk_loop (fuel - 1) rfuel cfg env dc dev nxt w1
      else (Inr (Fallthrough off), w))"
proof (cases fuel)
  case 0
  then show ?thesis by simp
next
  case (Suc n)
  show ?thesis unfolding Suc by (simp split: prod.splits sum.splits pass.splits)
qed

lemma get_random_unfold:
  "get_random fuel env buf_size w =
     (if fuel = 0 then (Inl Out_of_fuel, w)
      else
        case syscall env Randomizer (Getrandom buf_size) w of (rp, w1) \<Rightarrow>
        let r = (word_of_int (ret_val rp) :: 32 word) in
        if \<not> ((scast r :: u64) \<le> buf_size) then (Inl Assert_failed, w1)
        else if \<not> (errno w1 = 0 \<or> errno w1 = EINTR) then (Inl Assert_failed, w1)
        else
          let buf_size' = (if 0 < sint r then buf_size - scast r else buf_size) in
          if buf_size' \<noteq> 0 then get_random (fuel - 1) env buf_size' w1
          else (Inr (), w1))"
proof (cases fuel)
  case 0
  then show ?thesis by simp
next
  case (Suc n)
  show ?thesis unfolding Suc by (simp add: Let_def split: prod.splits)
qed

lemmas run_defs = cmd_dev_def device_size_sec_def rw_sectors_def chunk_pass_def chunk_io_def
  check_one_by_one_def check_sector_def print_progress_def gettimeofday_def syscall_def
  printf_def fflush_def clear_line_def init_sector_def block_size_at_def buffer_bytes_def
  engine_flags_def sim_env_def small_config_def default_config_def init_world_def
  time_diff_def fdiv_def Let_def sector_loop.simps fill_loop.simps chunk_loop_unfold get_random_unfold
  EXIT_FAILURE_def EIO_def EILSEQ_def EINVAL_def EINTR_def O_DIRECT_def O_RDONLY_def O_RDWR_def



section \<open>Check mode\<close>

lemma fallback_check_event: "fallback_event dc e \<Longrightarrow> dc \<noteq> DEV_FIX \<Longrightarrow> check_event e"
  by (cases "(dc, e)" rule: fallback_event.cases) auto

lemma reporter_check_event: "reporter_event e \<Longrightarrow> check_event e"
  by (cases e rule: reporter_event.cases) auto

lemma list_all_imp: "list_all A xs \<Longrightarrow> (\<And>x. A x \<Longrightarrow> B x) \<Longrightarrow> list_all B xs"
  by (induction xs) auto

lemma chunk_io_check:
  assumes "chunk_io rfuel cfg env DEV_CHECK off n w = (r, w')" "trace w' = evs @ trace w"
  shows "list_all check_event evs"
  using assms
proof (cases rule: chunk_io_cases)
  case (read_whole rp en)
  with assms show ?thesis by auto
next
  case (degraded rp en w1 fb)
  from check_one_by_one_trace [OF degraded(4)] degraded(3,5)
  have "list_all (fallback_event DEV_CHECK) fb" by auto
  then have "list_all check_event fb"
    by (rule list_all_imp) (simp add: fallback_check_event)
  with degraded assms show ?thesis by auto
qed auto

lemma chunk_pass_check:
  assumes "chunk_pass rfuel cfg env DEV_CHECK dev off w = (r, w')" "trace w' = evs @ trace w"
  shows "list_all check_event evs"
  using assms(1)
proof (cases rule: chunk_pass_cases)
  case (seek_failed r1 e1 rc e2)
  with assms show ?thesis by auto
next
  case (io_halted h k1 e1 w1 io)
  from chunk_io_check [OF io_halted(3)] io_halted(2,4) have "list_all check_event io" by auto
  with io_halted assms show ?thesis by auto
next
  case (reported k1 e1 w1 w3 io rr rep)
  from chunk_io_check [OF reported(2,3)] have "list_all check_event io" .
  moreover from reported(5) have "list_all check_event rep"
    by (rule list_all_imp) (rule reporter_check_event)
  ultimately show ?thesis using reported assms by auto
qed

lemma chunk_loop_check:
  assumes "chunk_loop fuel rfuel cfg env DEV_CHECK dev off w = (r, w')"
  shows "\<exists>evs. trace w' = evs @ trace w \<and> list_all check_event evs"
  by (rule chunk_loop_events [OF assms]) (auto dest: chunk_pass_check)

lemma access_mode_check:
  "open_flags cfg = O_DIRECT \<or> open_flags cfg = 0 \<Longrightarrow>
   engine_flags cfg DEV_CHECK AND O_ACCMODE = O_RDONLY"
  by (auto simp: engine_flags_def O_DIRECT_def O_ACCMODE_def O_RDONLY_def)

lemma rw_sectors_check:
  assumes flags: "open_flags cfg = O_DIRECT \<or> open_flags cfg = 0"
    and run: "rw_sectors fuel rfuel cfg env off dev DEV_CHECK w = (r, w')"
  shows "\<exists>evs. trace w' = evs @ trace w \<and> list_all check_event evs"
  using run
proof (cases rule: rw_sectors_cases)
  case (alloc_failed ra e0)
  then show ?thesis by auto
next
  case (open_failed ra e0 ro e1)
  with access_mode_check [OF flags] show ?thesis by auto
next
  case (stopped ra e0 k e1 w2 rl lp)
  from chunk_loop_check [OF stopped(3)] stopped(4) have "list_all check_event lp" by auto
  with stopped access_mode_check [OF flags] show ?thesis by auto
next
  case (completed ra e0 k e1 w2 off_end w3 lp rf e4 msg rc e6 w6 rr)
  from chunk_loop_check [OF completed(3)] completed(4) have lp: "list_all check_event lp" by auto
  from print_progress_trace [OF completed(7)] obtain rep
    where rep: "trace w' = rep @ trace w6" "list_all reporter_event rep" by blast
  from rep(2) have "list_all check_event rep"
    by (rule list_all_imp) (rule reporter_check_event)
  with lp rep(1) completed access_mode_check [OF flags] show ?thesis by auto
qed

lemma device_size_sec_cases:
  assumes "device_size_sec env size0 w = ((r, sz), w')"
  obtains evs where "trace w' = evs @ trace w" "list_all check_event evs"
    "r = 0 \<longrightarrow> (\<exists>b. sz = b div 512)"
proof -
  obtain rs w1 where s1: "syscall env Resolver Stat w = (rs, w1)"
    by (cases "syscall env Resolver Stat w") auto
  obtain ro w2 where s2: "syscall env Resolver (Open_dev O_RDONLY) w1 = (ro, w2)"
    by (cases "syscall env Resolver (Open_dev O_RDONLY) w1") auto
  obtain ri w3 where s3: "syscall env Resolver Ioctl_BLKGETSIZE64 w2 = (ri, w3)"
    by (cases "syscall env Resolver Ioctl_BLKGETSIZE64 w2") auto
  obtain rc w4 where s4: "syscall env Resolver Close w3 = (rc, w4)"
    by (cases "syscall env Resolver Close w3") auto
  note t = syscall_trace [OF s1] syscall_trace [OF s2] syscall_trace [OF s3] syscall_trace [OF s4]
  from assms s1 s2 s3 s4 t
  have "\<exists>evs. trace w' = evs @ trace w \<and> list_all check_event evs"
    by (auto simp: device_size_sec_def Let_def O_RDONLY_def O_ACCMODE_def EINVAL_def
        split: if_splits)
  moreover from assms s1 s2 s3 s4 have "r = 0 \<longrightarrow> (\<exists>b. sz = b div 512)"
    by (auto simp: device_size_sec_def Let_def EINVAL_def split: if_splits)
  ultimately show thesis using that by blast
qed

text \<open>
  Claim C3. A whole run of the check command, on any device and with any answers of the
  system, adds no write call to the trace, neither from the bulk path nor from the sector
  fallback, and every \<^verbatim>\<open>open\<close> call it makes asks for read-only access. The flags that
  \<^verbatim>\<open>main\<close> can set are \<^verbatim>\<open>O_DIRECT\<close> (the default) and \<open>0\<close>.
\<close>

theorem check_mode_never_writes:
  assumes flags: "open_flags cfg = O_DIRECT \<or> open_flags cfg = 0"
    and run: "cmd_dev fuel rfuel cfg env device size0 DEV_CHECK w = (r, w')"
  shows "\<exists>evs. trace w' = evs @ trace w \<and> filter is_write evs = []
           \<and> (\<forall>c fl rp en. Call c (Open_dev fl) rp en \<in> set evs \<longrightarrow> fl AND O_ACCMODE = O_RDONLY)"
proof -
  define w1 where "w1 = (if debug cfg then printf (Dbg_running device) w else w)"
  have t1: "\<exists>evs. trace w1 = evs @ trace w \<and> list_all check_event evs"
    by (simp add: w1_def)
  obtain rs sz w2 where ds: "device_size_sec env size0 w1 = ((rs, sz), w2)"
    by (cases "device_size_sec env size0 w1") auto
  from ds obtain evs2 where t2: "trace w2 = evs2 @ trace w1" "list_all check_event evs2"
    by (rule device_size_sec_cases)
  have "\<exists>evs. trace w' = evs @ trace w2 \<and> list_all check_event evs"
  proof (cases "rs \<noteq> 0")
    case True
    with run ds have "w' = w2" by (simp add: cmd_dev_def w1_def Let_def)
    then show ?thesis by simp
  next
    case False
    with run ds have "rw_sectors fuel rfuel cfg env 0 sz DEV_CHECK w2 = (r, w')"
      by (simp add: cmd_dev_def w1_def Let_def)
    with flags show ?thesis by (rule rw_sectors_check)
  qed
  then obtain evs3 where t3: "trace w' = evs3 @ trace w2" "list_all check_event evs3"
    by blast
  from t1 obtain evs1 where t1': "trace w1 = evs1 @ trace w" "list_all check_event evs1"
    by blast
  define evs where "evs = evs3 @ evs2 @ evs1"
  have evs: "trace w' = evs @ trace w" "list_all check_event evs"
    using t1' t2 t3 by (simp_all add: evs_def)
  have "filter is_write evs = []"
    using evs(2) by (induction evs) (auto elim: is_write.elims)
  moreover have "\<forall>c fl rp en. Call c (Open_dev fl) rp en \<in> set evs \<longrightarrow> fl AND O_ACCMODE = O_RDONLY"
    using evs(2) by (auto simp: list_all_iff)
  ultimately show ?thesis using evs(1) by blast
qed


theorem check_mode_never_writes_witness:
  "(open_flags small_config = O_DIRECT \<or> open_flags small_config = 0)
   \<and> filter is_write (trace (snd (cmd_dev 3 0 small_config (sim_env [(0, Media)] 1024)
                                    ''sdx'' 0 DEV_CHECK init_world))) = []"
  using check_mode_never_writes [of small_config 3 0 "sim_env [(0, Media)] 1024" "''sdx''" 0
      init_world
      "fst (cmd_dev 3 0 small_config (sim_env [(0, Media)] 1024) ''sdx'' 0 DEV_CHECK init_world)"
      "snd (cmd_dev 3 0 small_config (sim_env [(0, Media)] 1024) ''sdx'' 0 DEV_CHECK init_world)"]
  by (auto simp: small_config_def default_config_def init_world_def)

section \<open>A device of zero sectors\<close>

lemma print_progress_final_ok:
  assumes "print_progress env device_size bytes True w = (rr, w')"
  shows "rr = Inr ()"
  using assms
  by (auto simp: print_progress_def gettimeofday_eq Let_def fdiv_def split: if_splits sum.splits)

lemma reporter_not_transfer: "reporter_event e \<Longrightarrow> \<not> is_transfer e"
  by (cases e rule: reporter_event.cases) auto

lemma reporter_no_transfers: "list_all reporter_event evs \<Longrightarrow> filter is_transfer evs = []"
  by (induction evs) (auto dest: reporter_not_transfer)

lemma reporter_no_calls: "list_all reporter_event evs \<Longrightarrow> calls_by c evs = []"
proof (induction evs)
  case Nil
  then show ?case by (simp add: calls_by_def)
next
  case (Cons e evs)
  then have "call_by c e = []"
    by (cases e rule: reporter_event.cases) auto
  with Cons show ?case by (simp add: calls_by_def)
qed

lemma calls_by_append [simp]: "calls_by c (xs @ ys) = calls_by c xs @ calls_by c ys"
  by (simp add: calls_by_def)

lemma calls_by_Cons_Call [simp]:
  "calls_by c (Call c' rq rp en # evs) = (if c' = c then [(rq, rp)] else []) @ calls_by c evs"
  by (simp add: calls_by_def)

lemma calls_by_Cons_Print [simp]: "calls_by c (Print m # evs) = calls_by c evs"
  by (simp add: calls_by_def)

lemma calls_by_Nil [simp]: "calls_by c [] = []"
  by (simp add: calls_by_def)

text \<open>
  Claim C10. When the extent is zero sectors, a run in any of the three modes makes no
  read, no write and no seek, whatever the system answers: the loop body is never
  entered. If the device opened, the engine's calls are the allocation, the open, the
  flush and the close, in this order, and the status is 0. (The loop needs one unit of
  fuel to find its condition false.)
\<close>

theorem zero_extent_run:
  assumes run: "rw_sectors fuel rfuel cfg env off 0 dc w = (r, w')"
    and fuel: "0 < fuel"
  shows "\<exists>evs. trace w' = evs @ trace w \<and> filter is_transfer evs = []
           \<and> ((\<exists>fl k en. Call Engine (Open_dev fl) (Ok k) en \<in> set evs) \<longrightarrow>
                 r = Inr 0
                 \<and> map fst (calls_by Engine evs)
                     = [Close, Fsync, Open_dev (engine_flags cfg dc),
                        Posix_memalign (buffer_bytes cfg)])"
proof -
  from fuel obtain n where n: "fuel = Suc n" by (cases fuel) auto
  have loop: "chunk_loop fuel rfuel cfg env dc 0 off v = (Inr (Fallthrough off), v)" for v
    by (simp add: n)
  from run show ?thesis
  proof (cases rule: rw_sectors_cases)
    case (alloc_failed ra e0)
    then show ?thesis by auto
  next
    case (open_failed ra e0 ro e1)
    then have "trace w' = [Call Engine (Open_dev (engine_flags cfg dc)) ro e1,
                   Call Engine (Posix_memalign (buffer_bytes cfg)) ra e0] @ trace w"
      and "\<not> (\<exists>k. ro = Ok k)"
      by auto
    then show ?thesis by (intro exI [of _ "[Call Engine (Open_dev (engine_flags cfg dc)) ro e1,
                   Call Engine (Posix_memalign (buffer_bytes cfg)) ra e0]"]) auto
  next
    case (stopped ra e0 k e1 w2 rl lp)
    with loop [of w2] show ?thesis by auto
  next
    case (completed ra e0 k e1 w2 off_end w3 lp rf e4 msg rc e6 w6 rr)
    from completed(3) loop [of w2] have "w3 = w2" by simp
    with completed(4) have lp: "lp = []" by simp
    from print_progress_final_ok [OF completed(7)] completed(8) have r: "r = Inr 0" by simp
    from print_progress_trace [OF completed(7)] obtain rep
      where rep: "trace w' = rep @ trace w6" "list_all reporter_event rep" by blast
    define evs where "evs = rep @ [Call Engine Close rc e6] @ msg @ [Call Engine Fsync rf e4]
        @ [Call Engine (Open_dev (engine_flags cfg dc)) (Ok k) e1,
           Call Engine (Posix_memalign (buffer_bytes cfg)) ra e0]"
    have "trace w' = evs @ trace w"
      using rep(1) completed(2,4,6) lp by (simp add: evs_def)
    moreover have "filter is_transfer evs = []"
      using reporter_no_transfers [OF rep(2)] completed(5) by (simp add: evs_def)
    moreover have "map fst (calls_by Engine evs)
                     = [Close, Fsync, Open_dev (engine_flags cfg dc),
                        Posix_memalign (buffer_bytes cfg)]"
      using reporter_no_calls [OF rep(2)] completed(5) by (simp add: evs_def)
    ultimately show ?thesis using r by (intro exI [of _ evs]) simp
  qed
qed


theorem zero_extent_run_witness:
  "rw_sectors 1 0 small_config (sim_env [] 100) 0 0 DEV_FORMAT init_world
     = (Inr 0, init_world \<lparr> trace := [Clock \<lparr> tv_sec = 1004, tv_usec = 0 \<rparr>,
                                         Call Engine Close (Ok 0) 0,
                                         Call Engine Fsync (Ok 0) 0,
                                         Call Engine (Open_dev 0x4002) (Ok 3) 0,
                                         Call Engine (Posix_memalign 2048) (Ok 0) 0],
                              start_time := \<lparr> tv_sec = 1004, tv_usec = 0 \<rparr>,
                              end_time := \<lparr> tv_sec = 1004, tv_usec = 0 \<rparr> \<rparr>)
   \<and> map fst (calls_by Engine
                 [Clock \<lparr> tv_sec = 1004, tv_usec = 0 \<rparr>, Call Engine Close (Ok 0) 0,
                  Call Engine Fsync (Ok 0) 0, Call Engine (Open_dev 0x4002) (Ok 3) 0,
                  Call Engine (Posix_memalign 2048) (Ok 0) 0])
       = [Close, Fsync, Open_dev (engine_flags small_config DEV_FORMAT),
          Posix_memalign (buffer_bytes small_config)]"
proof -
  have run: "rw_sectors 1 0 small_config (sim_env [] 100) 0 0 DEV_FORMAT init_world
     = (Inr 0, init_world \<lparr> trace := [Clock \<lparr> tv_sec = 1004, tv_usec = 0 \<rparr>,
                                         Call Engine Close (Ok 0) 0,
                                         Call Engine Fsync (Ok 0) 0,
                                         Call Engine (Open_dev 0x4002) (Ok 3) 0,
                                         Call Engine (Posix_memalign 2048) (Ok 0) 0],
                              start_time := \<lparr> tv_sec = 1004, tv_usec = 0 \<rparr>,
                              end_time := \<lparr> tv_sec = 1004, tv_usec = 0 \<rparr> \<rparr>)"
    by (simp add: run_defs del: chunk_loop.simps get_random.simps)
  from zero_extent_run [OF run zero_less_one] run show ?thesis
    by (auto simp: init_world_def)
qed


section \<open>A failed seek in the chunk loop\<close>

lemma calls_by_Cons_other [simp]:
  "calls_by c (Flush # evs) = calls_by c evs" "calls_by c (Clock t # evs) = calls_by c evs"
  by (simp_all add: calls_by_def)

lemma in_calls_by: "Call c rq rp en \<in> set evs \<Longrightarrow> (rq, rp) \<in> set (calls_by c evs)"
  by (induction evs) (auto simp: calls_by_def)

lemma fallback_no_engine_calls: "list_all (fallback_event dc) evs \<Longrightarrow> calls_by Engine evs = []"
proof (induction evs)
  case Nil
  then show ?case by simp
next
  case (Cons e evs)
  then have "call_by Engine e = []"
    by (cases "(dc, e)" rule: fallback_event.cases) auto
  with Cons show ?case by (simp add: calls_by_def)
qed

lemma randomizer_no_engine_calls: "list_all randomizer_event evs \<Longrightarrow> calls_by Engine evs = []"
proof (induction evs)
  case Nil
  then show ?case by simp
next
  case (Cons e evs)
  then have "call_by Engine e = []"
    by (cases e rule: randomizer_event.cases) auto
  with Cons show ?case by (simp add: calls_by_def)
qed

lemma chunk_io_engine_calls:
  assumes "chunk_io rfuel cfg env dc off n w = (r, w')" "trace w' = evs @ trace w"
  shows "list_all pass_call (calls_by Engine evs)"
  using assms(1)
proof (cases rule: chunk_io_cases)
  case (fill_halted h rnd dbg)
  with assms(2) randomizer_no_engine_calls [of rnd] show ?thesis by auto
next
  case (written rnd dbg rp en err)
  with assms(2) randomizer_no_engine_calls [of rnd] show ?thesis by auto
next
  case (read_whole rp en)
  with assms(2) show ?thesis by auto
next
  case (degraded rp en w1 fb)
  from check_one_by_one_trace [OF degraded(4)] degraded(3,5)
  have "list_all (fallback_event dc) fb" by auto
  with degraded assms(2) fallback_no_engine_calls [of dc fb] show ?thesis by auto
qed

lemma chunk_pass_engine_calls:
  assumes cp: "chunk_pass rfuel cfg env dc dev off w = (r, w')" and ext: "trace w' = evs @ trace w"
  shows "(\<forall>c. r = Inr (Abort c) \<longrightarrow>
            c = EXIT_FAILURE \<and>
            (\<exists>rc e2 r1 e1. evs = [Call Engine Close rc e2, Print (Seek_error off e1),
                                  Call Engine (Lseek64 (off * 512)) r1 e1] \<and> ret_val r1 < 0))
       \<and> ((\<forall>c. r \<noteq> Inr (Abort c)) \<longrightarrow> list_all pass_call (calls_by Engine evs))"
  using cp
proof (cases rule: chunk_pass_cases)
  case (seek_failed r1 e1 rc e2)
  with ext show ?thesis by auto
next
  case (io_halted h k1 e1 w1 io)
  from chunk_io_engine_calls [OF io_halted(3)] io_halted(2,4)
  have "list_all pass_call (calls_by Engine io)" by auto
  with io_halted ext show ?thesis by auto
next
  case (reported k1 e1 w1 w3 io rr rep)
  from chunk_io_engine_calls [OF reported(2,3)]
  have "list_all pass_call (calls_by Engine io)" .
  with reported ext reporter_no_calls [OF reported(5), of Engine] show ?thesis
    by (auto split: sum.splits)
qed

lemma chunk_loop_engine_calls:
  assumes "chunk_loop fuel rfuel cfg env dc dev off w = (r, w')"
  shows "\<exists>evs. trace w' = evs @ trace w \<and>
     (\<forall>c. r = Inr (Return c) \<longrightarrow>
        c = EXIT_FAILURE \<and>
        (\<exists>rc e2 s r1 e1 rest.
           evs = [Call Engine Close rc e2, Print (Seek_error s e1),
                  Call Engine (Lseek64 (s * 512)) r1 e1] @ rest
           \<and> ret_val r1 < 0 \<and> list_all pass_call (calls_by Engine rest)))
     \<and> ((\<forall>c. r \<noteq> Inr (Return c)) \<longrightarrow> list_all pass_call (calls_by Engine evs))"
  using assms
proof (induction fuel arbitrary: off w)
  case 0
  then show ?case by auto
next
  case (Suc fuel)
  show ?case
  proof (cases "off < dev")
    case False
    with Suc.prems show ?thesis by auto
  next
    case True
    obtain r1 w1 where cp: "chunk_pass rfuel cfg env dc dev off w = (r1, w1)"
      by (cases "chunk_pass rfuel cfg env dc dev off w") auto
    from chunk_pass_trace [OF cp] obtain evs1 where t1: "trace w1 = evs1 @ trace w" ..
    note p1 = chunk_pass_engine_calls [OF cp t1]
    show ?thesis
    proof (cases r1)
      case (Inl h)
      with Suc.prems True cp have "r = Inl h" "w' = w1" by auto
      with p1 Inl t1 show ?thesis by auto
    next
      case (Inr ps)
      show ?thesis
      proof (cases ps)
        case (Abort c)
        with Suc.prems True cp Inr have "r = Inr (Return c)" "w' = w1" by auto
        with p1 Inr Abort t1 show ?thesis
          by (intro exI [of _ evs1]) force
      next
        case (Advance nxt)
        with Suc.prems True cp Inr
        have "chunk_loop fuel rfuel cfg env dc dev nxt w1 = (r, w')" by simp
        from Suc.IH [OF this] obtain evs2 where t2: "trace w' = evs2 @ trace w1"
          and ret: "\<forall>c. r = Inr (Return c) \<longrightarrow>
              c = EXIT_FAILURE \<and>
              (\<exists>rc e2 s r1 e1 rest.
                 evs2 = [Call Engine Close rc e2, Print (Seek_error s e1),
                        Call Engine (Lseek64 (s * 512)) r1 e1] @ rest
                 \<and> ret_val r1 < 0 \<and> list_all pass_call (calls_by Engine rest))"
          and oth: "(\<forall>c. r \<noteq> Inr (Return c)) \<longrightarrow> list_all pass_call (calls_by Engine evs2)"
          by blast
        from p1 Inr Advance have q1: "list_all pass_call (calls_by Engine evs1)" by simp
        have "trace w' = (evs2 @ evs1) @ trace w" using t1 t2 by simp
        moreover have "\<forall>c. r = Inr (Return c) \<longrightarrow>
              c = EXIT_FAILURE \<and>
              (\<exists>rc e2 s r1 e1 rest.
                 evs2 @ evs1 = [Call Engine Close rc e2, Print (Seek_error s e1),
                        Call Engine (Lseek64 (s * 512)) r1 e1] @ rest
                 \<and> ret_val r1 < 0 \<and> list_all pass_call (calls_by Engine rest))"
        proof (intro allI impI)
          fix c assume "r = Inr (Return c)"
          with ret obtain rc e2 s r1 e1 rest where c: "c = EXIT_FAILURE"
            and e: "evs2 = [Call Engine Close rc e2, Print (Seek_error s e1),
                        Call Engine (Lseek64 (s * 512)) r1 e1] @ rest"
            and r: "ret_val r1 < 0" "list_all pass_call (calls_by Engine rest)"
            by blast
          from e have "evs2 @ evs1 = [Call Engine Close rc e2, Print (Seek_error s e1),
                        Call Engine (Lseek64 (s * 512)) r1 e1] @ (rest @ evs1)" by simp
          moreover from r q1 have "list_all pass_call (calls_by Engine (rest @ evs1))" by simp
          ultimately show "c = EXIT_FAILURE \<and>
              (\<exists>rc e2 s r1 e1 rest.
                 evs2 @ evs1 = [Call Engine Close rc e2, Print (Seek_error s e1),
                        Call Engine (Lseek64 (s * 512)) r1 e1] @ rest
                 \<and> ret_val r1 < 0 \<and> list_all pass_call (calls_by Engine rest))"
            using c r(1) by blast
        qed
        moreover have "(\<forall>c. r \<noteq> Inr (Return c)) \<longrightarrow> list_all pass_call (calls_by Engine (evs2 @ evs1))"
          using oth q1 by simp
        ultimately show ?thesis by blast
      qed
    qed
  qed
qed


lemma pass_calls_no_failed_seek:
  "list_all pass_call (calls_by Engine evs) \<Longrightarrow> Call Engine (Lseek64 b) (Fail e) en \<notin> set evs"
  by (auto simp: list_all_iff dest!: in_calls_by)

lemma pass_calls_no_close:
  "list_all pass_call cs \<Longrightarrow> Close \<notin> set (map fst cs)"
  by (induction cs) auto

text \<open>
  Claim C5. In any run of the engine, a seek of the chunk loop that fails is the last
  but two of the events: the only events after it are the report of the seek error, with
  the sector and the error number, and the close of the device. No further chunk is
  processed, and the status is \<^verbatim>\<open>EXIT_FAILURE\<close>, which is not zero. On every path on
  which the function returns after the device opened, the last call of the engine is the
  close of the device, and it is the only close.
\<close>

theorem chunk_seek_failure_is_fatal:
  assumes run: "rw_sectors fuel rfuel cfg env off dev dc w = (r, w')"
    and ext: "trace w' = evs @ trace w"
  shows "(\<forall>b e en. Call Engine (Lseek64 b) (Fail e) en \<in> set evs \<longrightarrow>
            r = Inr EXIT_FAILURE \<and> EXIT_FAILURE \<noteq> 0
            \<and> (\<exists>rc e2 s rest. b = s * 512
                  \<and> evs = Call Engine Close rc e2 # Print (Seek_error s en)
                            # Call Engine (Lseek64 b) (Fail e) en # rest
                  \<and> Call Engine (Lseek64 b) (Fail e) en \<notin> set rest))
       \<and> (\<forall>c. r = Inr c \<longrightarrow> (\<exists>fl k en. Call Engine (Open_dev fl) (Ok k) en \<in> set evs) \<longrightarrow>
            (\<exists>rest. map fst (calls_by Engine evs) = Close # rest \<and> Close \<notin> set rest))"
  using run
proof (cases rule: rw_sectors_cases)
  case (alloc_failed ra e0)
  with ext show ?thesis by auto
next
  case (open_failed ra e0 ro e1)
  then have "\<not> (\<exists>k. ro = Ok k)" by auto
  with open_failed ext show ?thesis by auto
next
  case (stopped ra e0 k e1 w2 rl lp)
  define base where "base = [Call Engine (Open_dev (engine_flags cfg dc)) (Ok k) e1,
                   Call Engine (Posix_memalign (buffer_bytes cfg)) ra e0]"
  from stopped ext have evs: "evs = lp @ base" by (simp add: base_def)
  from chunk_loop_engine_calls [OF stopped(3)] stopped(4)
  have ret: "\<forall>c. rl = Inr (Return c) \<longrightarrow>
        c = EXIT_FAILURE \<and>
        (\<exists>rc e2 s r1 e1 rest.
           lp = [Call Engine Close rc e2, Print (Seek_error s e1),
                  Call Engine (Lseek64 (s * 512)) r1 e1] @ rest
           \<and> ret_val r1 < 0 \<and> list_all pass_call (calls_by Engine rest))"
    and oth: "(\<forall>c. rl \<noteq> Inr (Return c)) \<longrightarrow> list_all pass_call (calls_by Engine lp)"
    by auto
  from stopped(5) show ?thesis
  proof
    assume "\<exists>h. rl = Inl h \<and> r = Inl h"
    then obtain h where h: "rl = Inl h" "r = Inl h" by blast
    with oth have "list_all pass_call (calls_by Engine lp)" by simp
    from pass_calls_no_failed_seek [OF this] h evs show ?thesis
      by (auto simp: base_def)
  next
    assume "\<exists>c. rl = Inr (Return c) \<and> r = Inr c"
    then obtain c where c: "rl = Inr (Return c)" "r = Inr c" by blast
    with ret obtain rc e2 s r1 e1' rest where cf: "c = EXIT_FAILURE"
      and lp: "lp = [Call Engine Close rc e2, Print (Seek_error s e1'),
                  Call Engine (Lseek64 (s * 512)) r1 e1'] @ rest"
      and r1: "ret_val r1 < 0" and rest: "list_all pass_call (calls_by Engine rest)"
      by blast
    have nf: "Call Engine (Lseek64 b) (Fail e) en \<notin> set (rest @ base)" for b e en
      using pass_calls_no_failed_seek [OF rest] by (auto simp: base_def)
    have first: "\<forall>b e en. Call Engine (Lseek64 b) (Fail e) en \<in> set evs \<longrightarrow>
            r = Inr EXIT_FAILURE \<and> EXIT_FAILURE \<noteq> 0
            \<and> (\<exists>rc e2 s rest. b = s * 512
                  \<and> evs = Call Engine Close rc e2 # Print (Seek_error s en)
                            # Call Engine (Lseek64 b) (Fail e) en # rest
                  \<and> Call Engine (Lseek64 b) (Fail e) en \<notin> set rest)"
    proof (intro allI impI)
      fix b e en
      assume "Call Engine (Lseek64 b) (Fail e) en \<in> set evs"
      with evs lp nf [of b e en]
      have eq: "b = s * 512" "r1 = Fail e" "e1' = en" by auto
      have "evs = Call Engine Close rc e2 # Print (Seek_error s en)
                    # Call Engine (Lseek64 b) (Fail e) en # (rest @ base)"
        using evs lp eq by simp
      with nf [of b e en] eq(1) c(2) cf
      show "r = Inr EXIT_FAILURE \<and> EXIT_FAILURE \<noteq> 0
            \<and> (\<exists>rc e2 s rest. b = s * 512
                  \<and> evs = Call Engine Close rc e2 # Print (Seek_error s en)
                            # Call Engine (Lseek64 b) (Fail e) en # rest
                  \<and> Call Engine (Lseek64 b) (Fail e) en \<notin> set rest)"
        by (auto simp: EXIT_FAILURE_def)
    qed
    have "map fst (calls_by Engine evs)
            = Close # (Lseek64 (s * 512) # map fst (calls_by Engine rest)
                @ [Open_dev (engine_flags cfg dc), Posix_memalign (buffer_bytes cfg)])"
      using evs lp by (simp add: base_def)
    moreover have "Close \<notin> set (Lseek64 (s * 512) # map fst (calls_by Engine rest)
                @ [Open_dev (engine_flags cfg dc), Posix_memalign (buffer_bytes cfg)])"
      using pass_calls_no_close [OF rest] by auto
    ultimately have "\<exists>rest. map fst (calls_by Engine evs) = Close # rest \<and> Close \<notin> set rest"
      by (intro exI conjI)
    with first show ?thesis by simp
  qed
next
  case (completed ra e0 k e1 w2 off_end w3 lp rf e4 msg rc e6 w6 rr)
  from print_progress_trace [OF completed(7)] obtain rep
    where rep: "trace w' = rep @ trace w6" "list_all reporter_event rep" by blast
  from chunk_loop_engine_calls [OF completed(3)] completed(4)
  have lp: "list_all pass_call (calls_by Engine lp)" by auto
  define base where "base = [Call Engine (Open_dev (engine_flags cfg dc)) (Ok k) e1,
                   Call Engine (Posix_memalign (buffer_bytes cfg)) ra e0]"
  have evs: "evs = rep @ [Call Engine Close rc e6] @ msg @ [Call Engine Fsync rf e4] @ lp @ base"
    using rep(1) completed(2,4,6) ext by (simp add: base_def)
  have rep_set: "Call c rq rp en \<notin> set rep" for c rq rp en
    using rep(2) by (auto simp: list_all_iff)
  have none: "Call Engine (Lseek64 b) (Fail e) en \<notin> set evs" for b e en
    using pass_calls_no_failed_seek [OF lp] rep_set completed(5)
    by (auto simp: evs base_def)
  have "map fst (calls_by Engine evs)
            = Close # (Fsync # map fst (calls_by Engine lp)
                @ [Open_dev (engine_flags cfg dc), Posix_memalign (buffer_bytes cfg)])"
    using reporter_no_calls [OF rep(2), of Engine] completed(5) by (simp add: evs base_def)
  moreover have "Close \<notin> set (Fsync # map fst (calls_by Engine lp)
                @ [Open_dev (engine_flags cfg dc), Posix_memalign (buffer_bytes cfg)])"
    using pass_calls_no_close [OF lp] by auto
  ultimately have "\<exists>rest. map fst (calls_by Engine evs) = Close # rest \<and> Close \<notin> set rest"
    by (intro exI conjI)
  with none show ?thesis by simp
qed


theorem chunk_seek_failure_is_fatal_witness:
  "rw_sectors 3 0 small_config (sim_env [(4, Seek_errno 29)] 3072) 0 6 DEV_CHECK init_world
     = (Inr 1, init_world \<lparr> trace := [Call Engine Close (Ok 0) 29, Print (Seek_error 4 29),
                                         Call Engine (Lseek64 2048) (Fail 29) 29,
                                         Clock \<lparr> tv_sec = 1004, tv_usec = 0 \<rparr>,
                                         Call Engine (Read 2048) (Ok 2048) 0,
                                         Call Engine (Lseek64 0) (Ok 0) 0,
                                         Call Engine (Open_dev 0x4000) (Ok 3) 0,
                                         Call Engine (Posix_memalign 2048) (Ok 0) 0],
                              errno := 29,
                              start_time := \<lparr> tv_sec = 1004, tv_usec = 0 \<rparr>,
                              end_time := \<lparr> tv_sec = 1004, tv_usec = 0 \<rparr> \<rparr>)
   \<and> (\<exists>rest. map fst (calls_by Engine
                 [Call Engine Close (Ok 0) 29, Print (Seek_error 4 29),
                  Call Engine (Lseek64 2048) (Fail 29) 29,
                  Clock \<lparr> tv_sec = 1004, tv_usec = 0 \<rparr>,
                  Call Engine (Read 2048) (Ok 2048) 0,
                  Call Engine (Lseek64 0) (Ok 0) 0,
                  Call Engine (Open_dev 0x4000) (Ok 3) 0,
                  Call Engine (Posix_memalign 2048) (Ok 0) 0]) = Close # rest
              \<and> Close \<notin> set rest)"
proof -
  have run: "rw_sectors 3 0 small_config (sim_env [(4, Seek_errno 29)] 3072) 0 6 DEV_CHECK init_world
     = (Inr 1, init_world \<lparr> trace := [Call Engine Close (Ok 0) 29, Print (Seek_error 4 29),
                                         Call Engine (Lseek64 2048) (Fail 29) 29,
                                         Clock \<lparr> tv_sec = 1004, tv_usec = 0 \<rparr>,
                                         Call Engine (Read 2048) (Ok 2048) 0,
                                         Call Engine (Lseek64 0) (Ok 0) 0,
                                         Call Engine (Open_dev 0x4000) (Ok 3) 0,
                                         Call Engine (Posix_memalign 2048) (Ok 0) 0],
                              errno := 29,
                              start_time := \<lparr> tv_sec = 1004, tv_usec = 0 \<rparr>,
                              end_time := \<lparr> tv_sec = 1004, tv_usec = 0 \<rparr> \<rparr>)"
    by (simp add: run_defs del: chunk_loop.simps get_random.simps)
  have "\<forall>c. (Inr 1 :: halt + int) = Inr c \<longrightarrow>
          (\<exists>fl k en. Call Engine (Open_dev fl) (Ok k) en
             \<in> set [Call Engine Close (Ok 0) 29, Print (Seek_error 4 29),
                  Call Engine (Lseek64 2048) (Fail 29) 29,
                  Clock \<lparr> tv_sec = 1004, tv_usec = 0 \<rparr>,
                  Call Engine (Read 2048) (Ok 2048) 0,
                  Call Engine (Lseek64 0) (Ok 0) 0,
                  Call Engine (Open_dev 0x4000) (Ok 3) 0,
                  Call Engine (Posix_memalign 2048) (Ok 0) 0]) \<longrightarrow>
          (\<exists>rest. map fst (calls_by Engine
                 [Call Engine Close (Ok 0) 29, Print (Seek_error 4 29),
                  Call Engine (Lseek64 2048) (Fail 29) 29,
                  Clock \<lparr> tv_sec = 1004, tv_usec = 0 \<rparr>,
                  Call Engine (Read 2048) (Ok 2048) 0,
                  Call Engine (Lseek64 0) (Ok 0) 0,
                  Call Engine (Open_dev 0x4000) (Ok 3) 0,
                  Call Engine (Posix_memalign 2048) (Ok 0) 0]) = Close # rest
              \<and> Close \<notin> set rest)"
    by (rule chunk_seek_failure_is_fatal [OF run, THEN conjunct2]) (simp add: init_world_def)
  then show ?thesis using run by simp
qed


section \<open>The chunks of a run\<close>

lemma extent_bound: "unat (bytes div 512 :: u64) < 2 ^ 55"
proof -
  have "unat bytes < 2 ^ 64"
    using unsigned_less [of bytes, where ?'a = nat] by simp
  then have "unat bytes div 512 < 2 ^ 55" by simp
  then show ?thesis by (simp add: unat_div)
qed

lemma unat_block_sectors: "unat (ucast (b :: u32) :: u64) = unat b" "unat b < 2 ^ 32"
proof -
  show lt: "unat b < 2 ^ 32"
    using unsigned_less [of b, where ?'a = nat] by simp
  have "unat (ucast b :: u64) = take_bit 64 (unat b)"
    using unsigned_ucast_eq [of b, where ?'a = nat and ?'c = 64] by simp
  also have "\<dots> = unat b"
    using lt by (simp add: take_bit_nat_eq_self_iff)
  finally show "unat (ucast b :: u64) = unat b" .
qed

lemma block_size_at_unat:
  assumes dev: "unat dev < 2 ^ 55" and off: "off < dev"
  shows "unat (block_size_at cfg dev off) = min (unat (block_sectors cfg)) (unat dev - unat off)"
proof -
  let ?b = "ucast (block_sectors cfg) :: u64"
  have b: "unat ?b = unat (block_sectors cfg)" "unat (block_sectors cfg) < 2 ^ 32"
    by (rule unat_block_sectors)+
  have lt: "unat off < unat dev"
    using off by (simp add: word_less_nat_alt)
  have "unat off + unat ?b < 2 ^ 64"
    using dev lt b by simp
  then have sum: "unat (off + ?b) = unat off + unat ?b"
    by (simp add: unat_add_lem [THEN iffD1])
  have sub: "unat (dev - off) = unat dev - unat off"
    using off by (simp add: unat_sub word_le_less_eq)
  show ?thesis
    using sum sub b lt by (auto simp: block_size_at_def word_less_nat_alt min_def)
qed

lemma advance_unat:
  assumes dev: "unat dev < 2 ^ 55" and off: "off < dev"
  shows "unat (off + block_size_at cfg dev off) = unat off + unat (block_size_at cfg dev off)"
proof -
  have "unat (block_size_at cfg dev off) \<le> unat dev - unat off"
    using block_size_at_unat [OF dev off] by simp
  moreover have "unat off < unat dev"
    using off by (simp add: word_less_nat_alt)
  ultimately have "unat off + unat (block_size_at cfg dev off) < 2 ^ 64"
    using dev by simp
  then show ?thesis by (simp add: unat_add_lem [THEN iffD1])
qed

lemma sectors_of_offset:
  assumes "unat (off :: u64) < 2 ^ 55"
  shows "sectors (off * 512) = unat off"
proof -
  have "unat off * unat (512 :: u64) < 2 ^ 64" using assms by simp
  then have "unat (off * 512) = unat off * 512"
    using unat_mult_lem [of off "512 :: u64"] by simp
  then show ?thesis by (simp add: sectors_def)
qed

lemma sectors_of_count:
  assumes "unat (n :: u64) < 2 ^ 55"
  shows "sectors (512 * n) = unat n"
  using sectors_of_offset [OF assms] by (simp add: mult.commute)


lemma chunk_seeks_append [simp]: "chunk_seeks (xs @ ys) = chunk_seeks ys @ chunk_seeks xs"
  by (simp add: chunk_seeks_def)

lemma chunk_transfers_append [simp]:
  "chunk_transfers (xs @ ys) = chunk_transfers ys @ chunk_transfers xs"
  by (simp add: chunk_transfers_def)

lemma chunk_seeks_Nil [simp]: "chunk_seeks [] = []"
  by (simp add: chunk_seeks_def)

lemma chunk_transfers_Nil [simp]: "chunk_transfers [] = []"
  by (simp add: chunk_transfers_def)

lemma chunk_seeks_Cons: "chunk_seeks (e # evs) = chunk_seeks evs @ seek_of e"
  by (simp add: chunk_seeks_def)

lemma chunk_transfers_Cons: "chunk_transfers (e # evs) = chunk_transfers evs @ transfer_of e"
  by (simp add: chunk_transfers_def)

lemma no_engine_calls_no_chunks:
  assumes "calls_by Engine evs = []"
  shows "chunk_seeks evs = []" "chunk_transfers evs = []"
proof -
  have "call_by Engine e = [] \<Longrightarrow> seek_of e = [] \<and> transfer_of e = []" for e
    by (cases e rule: seek_of.cases; cases e rule: transfer_of.cases) (auto split: if_splits)
  moreover have "\<forall>e\<in>set evs. call_by Engine e = []"
    using assms by (auto simp: calls_by_def)
  ultimately show "chunk_seeks evs = []" "chunk_transfers evs = []"
    by (auto simp: chunk_seeks_def chunk_transfers_def)
qed

lemma chunk_io_chunks:
  assumes io: "chunk_io rfuel cfg env dc off n w = (r, w')" and ext: "trace w' = evs @ trace w"
  shows "chunk_seeks evs = []"
    and "chunk_transfers evs = [512 * n] \<or> (chunk_transfers evs = [] \<and> (\<exists>h. r = Inl h))"
proof -
  have "chunk_seeks evs = []
      \<and> (chunk_transfers evs = [512 * n] \<or> (chunk_transfers evs = [] \<and> (\<exists>h. r = Inl h)))"
    using io
  proof (cases rule: chunk_io_cases)
    case (fill_halted h rnd dbg)
    with ext no_engine_calls_no_chunks [OF randomizer_no_engine_calls [of rnd]]
    show ?thesis by (auto simp: chunk_seeks_Cons chunk_transfers_Cons split: if_splits)
  next
    case (written rnd dbg rp en err)
    with ext no_engine_calls_no_chunks [OF randomizer_no_engine_calls [of rnd]]
    show ?thesis by (auto simp: chunk_seeks_Cons chunk_transfers_Cons split: if_splits)
  next
    case (read_whole rp en)
    with ext show ?thesis by (auto simp: chunk_seeks_Cons chunk_transfers_Cons)
  next
    case (degraded rp en w1 fb)
    from check_one_by_one_trace [OF degraded(4)] degraded(3,5)
    have "list_all (fallback_event dc) fb" by auto
    from no_engine_calls_no_chunks [OF fallback_no_engine_calls [OF this]] degraded ext
    show ?thesis by (auto simp: chunk_seeks_Cons chunk_transfers_Cons)
  qed
  then show "chunk_seeks evs = []"
    and "chunk_transfers evs = [512 * n] \<or> (chunk_transfers evs = [] \<and> (\<exists>h. r = Inl h))"
    by simp_all
qed

lemma chunk_pass_chunks:
  assumes cp: "chunk_pass rfuel cfg env dc dev off w = (r, w')" and ext: "trace w' = evs @ trace w"
  shows "(\<exists>c. r = Inr (Abort c)) \<and> chunk_seeks evs = [] \<and> chunk_transfers evs = []
       \<or> (\<exists>h. r = Inl h) \<and> chunk_seeks evs = [off * 512]
            \<and> (chunk_transfers evs = [] \<or> chunk_transfers evs = [512 * block_size_at cfg dev off])
       \<or> r = Inr (Advance (off + block_size_at cfg dev off)) \<and> chunk_seeks evs = [off * 512]
            \<and> chunk_transfers evs = [512 * block_size_at cfg dev off]"
  using cp
proof (cases rule: chunk_pass_cases)
  case (seek_failed r1 e1 rc e2)
  then obtain e where "r1 = Fail e" by (cases r1) auto
  with seek_failed ext show ?thesis
    by (auto simp: chunk_seeks_Cons chunk_transfers_Cons)
next
  case (io_halted h k1 e1 w1 io)
  from chunk_io_chunks [OF io_halted(3), of io] io_halted(2,4)
  have "chunk_seeks io = []"
    "chunk_transfers io = [512 * block_size_at cfg dev off] \<or> chunk_transfers io = []"
    by auto
  with io_halted ext show ?thesis
    by (auto simp: chunk_seeks_Cons chunk_transfers_Cons)
next
  case (reported k1 e1 w1 w3 io rr rep)
  from chunk_io_chunks [OF reported(2,3)]
  have io: "chunk_seeks io = []" "chunk_transfers io = [512 * block_size_at cfg dev off]"
    by auto
  note rep = no_engine_calls_no_chunks [OF reporter_no_calls [OF reported(5), of Engine]]
  from reported ext io rep show ?thesis
    by (cases rr) (auto simp: chunk_seeks_Cons chunk_transfers_Cons)
qed


lemma chunks_step:
  assumes "chunk_seeks evs1 = [off * 512]" "chunk_transfers evs1 = [512 * n]"
    and "unat (off :: u64) < 2 ^ 55" "unat (n :: u64) < 2 ^ 55"
  shows "chunks (evs2 @ evs1) = (unat off, unat n) # chunks evs2"
  using assms by (simp add: chunks_def sectors_of_offset sectors_of_count)

lemma chunk_loop_partition:
  assumes dev: "unat dev < 2 ^ 55" and bs: "block_sectors cfg \<noteq> 0" and le: "off \<le> dev"
    and run: "chunk_loop fuel rfuel cfg env dc dev off w = (r, w')"
  shows "\<exists>evs. trace w' = evs @ trace w
     \<and> contiguous_from (unat off) (chunks evs)
     \<and> (\<forall>(a, n) \<in> set (chunks evs).
           a < unat dev \<and> n = min (unat (block_sectors cfg)) (unat dev - a) \<and> 0 < n)
     \<and> (\<forall>e. r = Inr (Fallthrough e) \<longrightarrow>
           unat off + sum_list (map snd (chunks evs)) = unat dev
           \<and> (chunks evs \<noteq> [] \<longrightarrow>
                 snd (last (chunks evs)) = unat dev - fst (last (chunks evs))))"
  using le run
proof (induction fuel arbitrary: off w)
  case 0
  then have "trace w' = [] @ trace w" by simp
  then show ?case by (intro exI [of _ "[]"]) (use 0 in \<open>auto simp: chunks_def\<close>)
next
  case (Suc fuel)
  let ?B = "unat (block_sectors cfg)"
  show ?case
  proof (cases "off < dev")
    case False
    with Suc.prems have "off = dev" "r = Inr (Fallthrough off)" "w' = w" by auto
    then show ?thesis by (intro exI [of _ "[]"]) (auto simp: chunks_def)
  next
    case True
    let ?n = "block_size_at cfg dev off"
    have lt: "unat off < unat dev"
      using True by (simp add: word_less_nat_alt)
    have n: "unat ?n = min ?B (unat dev - unat off)"
      by (rule block_size_at_unat [OF dev True])
    have Bpos: "0 < ?B"
      using bs by (simp add: unat_gt_0)
    have npos: "0 < unat ?n"
      using n Bpos lt by simp
    have nlt: "unat ?n < 2 ^ 55" and offlt: "unat off < 2 ^ 55"
      using n lt dev by simp_all
    obtain r1 w1 where cp: "chunk_pass rfuel cfg env dc dev off w = (r1, w1)"
      by (cases "chunk_pass rfuel cfg env dc dev off w") auto
    from chunk_pass_trace [OF cp] obtain evs1 where t1: "trace w1 = evs1 @ trace w" ..
    from chunk_pass_chunks [OF cp t1]
    consider (abort) c where "r1 = Inr (Abort c)" "chunks evs1 = []"
      | (halt) h where "r1 = Inl h" "chunks evs1 = [] \<or> chunks evs1 = [(unat off, unat ?n)]"
      | (advance) "r1 = Inr (Advance (off + ?n))" "chunk_seeks evs1 = [off * 512]"
          "chunk_transfers evs1 = [512 * ?n]"
      by (auto simp: chunks_def sectors_of_offset [OF offlt] sectors_of_count [OF nlt])
    then show ?thesis
    proof cases
      case abort
      with Suc.prems True cp have "r = Inr (Return c)" "w' = w1" by auto
      with abort t1 show ?thesis by (intro exI [of _ evs1]) auto
    next
      case halt
      with Suc.prems True cp have "r = Inl h" "w' = w1" by auto
      with halt t1 n lt npos show ?thesis by (intro exI [of _ evs1]) auto
    next
      case advance
      with Suc.prems True cp
      have rec: "chunk_loop fuel rfuel cfg env dc dev (off + ?n) w1 = (r, w')" by simp
      have adv: "unat (off + ?n) = unat off + unat ?n"
        by (rule advance_unat [OF dev True])
      have "unat (off + ?n) \<le> unat dev"
        using adv n lt by simp
      then have le': "off + ?n \<le> dev"
        by (simp add: word_le_nat_alt)
      from Suc.IH [OF le' rec] obtain evs2 where t2: "trace w' = evs2 @ trace w1"
        and c2: "contiguous_from (unat (off + ?n)) (chunks evs2)"
        and s2: "\<forall>(a, n) \<in> set (chunks evs2).
                   a < unat dev \<and> n = min ?B (unat dev - a) \<and> 0 < n"
        and f2: "\<forall>e. r = Inr (Fallthrough e) \<longrightarrow>
                   unat (off + ?n) + sum_list (map snd (chunks evs2)) = unat dev
                   \<and> (chunks evs2 \<noteq> [] \<longrightarrow>
                         snd (last (chunks evs2)) = unat dev - fst (last (chunks evs2)))"
        by blast
      have cs: "chunks (evs2 @ evs1) = (unat off, unat ?n) # chunks evs2"
        by (rule chunks_step [OF advance(2,3) offlt nlt])
      have "trace w' = (evs2 @ evs1) @ trace w"
        using t1 t2 by simp
      moreover have "contiguous_from (unat off) (chunks (evs2 @ evs1))"
        using c2 adv by (simp add: cs)
      moreover have "\<forall>(a, n) \<in> set (chunks (evs2 @ evs1)).
                   a < unat dev \<and> n = min ?B (unat dev - a) \<and> 0 < n"
        using s2 n lt npos by (simp add: cs)
      moreover have "\<forall>e. r = Inr (Fallthrough e) \<longrightarrow>
                   unat off + sum_list (map snd (chunks (evs2 @ evs1))) = unat dev
                   \<and> (chunks (evs2 @ evs1) \<noteq> [] \<longrightarrow>
                         snd (last (chunks (evs2 @ evs1)))
                           = unat dev - fst (last (chunks (evs2 @ evs1))))"
        using f2 adv by (auto simp: cs)
      ultimately show ?thesis by blast
    qed
  qed
qed


lemma check_sector_total:
  assumes "\<not> randomize cfg" "check_sector rfuel cfg env dc sector w = (r, w')"
  shows "\<exists>f. r = Inr f"
  using assms
  by (auto simp: check_sector_def init_sector_off split: prod.splits if_splits)

lemma sector_loop_total:
  assumes "\<not> randomize cfg" "sector_loop rfuel cfg env dc bound sector w = (r, w')"
  shows "r = Inr ()"
  using assms
proof (induction rfuel cfg env dc bound sector w rule: sector_loop.induct)
  case (1 rfuel cfg env dc bound sector w)
  show ?case
  proof (cases "sector < bound")
    case False
    with "1.prems" show ?thesis by (simp add: sector_loop.simps)
  next
    case True
    obtain r1 w1 where cs: "check_sector rfuel cfg env dc sector w = (r1, w1)"
      by (cases "check_sector rfuel cfg env dc sector w") auto
    from check_sector_total [OF "1.prems"(1) cs] obtain f where f: "r1 = Inr f" ..
    show ?thesis
    proof (cases f)
      case Return_void
      with "1.prems" True cs f show ?thesis by (simp add: sector_loop.simps)
    next
      case Continue
      with "1.prems" True cs f
      have "sector_loop rfuel cfg env dc bound (sector + 1) w1 = (r, w')"
        by (simp add: sector_loop.simps)
      with "1.IH" [OF True cs [symmetric] f Continue "1.prems"(1)] show ?thesis by simp
    qed
  qed
qed

lemma fill_loop_total:
  assumes "\<not> randomize cfg" "fill_loop rfuel cfg env n s w = (r, w')"
  shows "r = Inr ()"
  using assms
proof (induction rfuel cfg env n s w rule: fill_loop.induct)
  case (1 rfuel cfg env n s w)
  show ?case
  proof (cases "s < n")
    case False
    with "1.prems" show ?thesis by (simp add: fill_loop.simps)
  next
    case True
    note i = init_sector_off [OF "1.prems"(1), of rfuel env w]
    with "1.prems" True have "fill_loop rfuel cfg env n (s + 1) w = (r, w')"
      by (simp add: fill_loop.simps)
    with "1.IH" [OF True i [symmetric] refl "1.prems"(1)] show ?thesis by simp
  qed
qed

lemma chunk_io_total:
  assumes "\<not> randomize cfg" "chunk_io rfuel cfg env dc off n w = (r, w')"
  shows "r = Inr ()"
  using assms(2)
proof (cases rule: chunk_io_cases)
  case (fill_halted h rnd dbg)
  with assms show ?thesis
    by (auto simp: chunk_io_def Let_def split: prod.splits sum.splits if_splits
        dest: fill_loop_total [OF assms(1)])
next
  case (degraded rp en w1 fb)
  then show ?thesis
    unfolding check_one_by_one_def by (auto dest: sector_loop_total [OF assms(1)])
qed auto

lemma print_progress_halt:
  assumes "print_progress env device_size bytes final w = (Inl h, w')"
  shows "h = Div_by_zero Device_bytes \<and> \<not> final \<and> device_size = 0"
  using assms
  by (auto simp: print_progress_def gettimeofday_eq Let_def fdiv_def unsigned_eq_0_iff
      split: if_splits sum.splits)

lemma chunk_pass_no_fuel:
  assumes "\<not> randomize cfg" "chunk_pass rfuel cfg env dc dev off w = (r, w')"
  shows "r \<noteq> Inl Out_of_fuel"
  using assms(2)
proof (cases rule: chunk_pass_cases)
  case (io_halted h k1 e1 w1 io)
  with chunk_io_total [OF assms(1) io_halted(3)] show ?thesis by simp
next
  case (reported k1 e1 w1 w3 io rr rep)
  then show ?thesis
    by (cases rr) (auto dest: print_progress_halt)
qed auto

lemma chunk_loop_enough_fuel:
  assumes dev: "unat dev < 2 ^ 55" and bs: "block_sectors cfg \<noteq> 0" and nr: "\<not> randomize cfg"
    and le: "off \<le> dev" and fuel: "unat dev - unat off < fuel"
    and run: "chunk_loop fuel rfuel cfg env dc dev off w = (r, w')"
  shows "r \<noteq> Inl Out_of_fuel"
  using le fuel run
proof (induction fuel arbitrary: off w)
  case 0
  then show ?case by simp
next
  case (Suc fuel)
  show ?case
  proof (cases "off < dev")
    case False
    with Suc.prems show ?thesis by auto
  next
    case True
    let ?n = "block_size_at cfg dev off"
    have lt: "unat off < unat dev"
      using True by (simp add: word_less_nat_alt)
    have n: "unat ?n = min (unat (block_sectors cfg)) (unat dev - unat off)"
      by (rule block_size_at_unat [OF dev True])
    have npos: "0 < unat ?n"
      using n bs lt by (simp add: unat_gt_0)
    have adv: "unat (off + ?n) = unat off + unat ?n"
      by (rule advance_unat [OF dev True])
    obtain r1 w1 where cp: "chunk_pass rfuel cfg env dc dev off w = (r1, w1)"
      by (cases "chunk_pass rfuel cfg env dc dev off w") auto
    from chunk_pass_trace [OF cp] obtain evs1 where t1: "trace w1 = evs1 @ trace w" ..
    note nf = chunk_pass_no_fuel [OF nr cp]
    from chunk_pass_chunks [OF cp t1]
    consider c where "r1 = Inr (Abort c)" | h where "r1 = Inl h"
      | "r1 = Inr (Advance (off + ?n))"
      by auto
    then show ?thesis
    proof cases
      case 1
      with Suc.prems True cp show ?thesis by auto
    next
      case 2
      with Suc.prems True cp nf show ?thesis by auto
    next
      case 3
      with Suc.prems True cp
      have rec: "chunk_loop fuel rfuel cfg env dc dev (off + ?n) w1 = (r, w')" by simp
      have "unat (off + ?n) \<le> unat dev"
        using adv n lt by simp
      then have le': "off + ?n \<le> dev"
        by (simp add: word_le_nat_alt)
      have "unat dev - unat (off + ?n) < fuel"
        using adv npos lt Suc.prems(2) by simp
      from Suc.IH [OF le' this rec] show ?thesis .
    qed
  qed
qed


lemma chunk_loop_return_code:
  assumes "chunk_loop fuel rfuel cfg env dc dev off w = (Inr (Return c), w')"
  shows "c = EXIT_FAILURE"
  using chunk_loop_engine_calls [OF assms] by blast

text \<open>
  Claim C1. The extent that \<^verbatim>\<open>cmd_dev\<close> passes on is a byte count divided by the sector
  size. For every such extent, start offset 0 and chunk size other than 0, in any run of
  the engine: the chunks (a successful seek of the chunk loop and its bulk transfer) are
  contiguous from sector 0, each starts inside the device and has the size
  \<open>min chunk_size (extent - offset)\<close>, never zero; when the run ends with status 0 the
  sizes add up to the extent and the last chunk is the remainder
  \<open>extent - offset\<close>. With the random fill off, fuel beyond the extent is enough for the
  loop to end.
\<close>

theorem chunk_partition:
  assumes bs: "block_sectors cfg \<noteq> 0"
    and run: "rw_sectors fuel rfuel cfg env 0 (bytes div 512) dc w = (r, w')"
    and ext: "trace w' = evs @ trace w"
  shows "contiguous_from 0 (chunks evs)
     \<and> (\<forall>(a, n) \<in> set (chunks evs).
           a < unat (bytes div 512)
           \<and> n = min (unat (block_sectors cfg)) (unat (bytes div 512) - a) \<and> 0 < n)
     \<and> (r = Inr 0 \<longrightarrow>
           sum_list (map snd (chunks evs)) = unat (bytes div 512)
           \<and> (chunks evs \<noteq> [] \<longrightarrow>
                 snd (last (chunks evs)) = unat (bytes div 512) - fst (last (chunks evs))))
     \<and> (\<not> randomize cfg \<and> unat (bytes div 512) < fuel \<longrightarrow> r \<noteq> Inl Out_of_fuel)"
proof -
  let ?dev = "bytes div 512"
  note dev = extent_bound [of bytes]
  have le: "(0 :: u64) \<le> ?dev" by simp
  have part: "contiguous_from 0 (chunks lp)
     \<and> (\<forall>(a, n) \<in> set (chunks lp).
           a < unat ?dev \<and> n = min (unat (block_sectors cfg)) (unat ?dev - a) \<and> 0 < n)
     \<and> (\<forall>e. rl = Inr (Fallthrough e) \<longrightarrow>
           sum_list (map snd (chunks lp)) = unat ?dev
           \<and> (chunks lp \<noteq> [] \<longrightarrow> snd (last (chunks lp)) = unat ?dev - fst (last (chunks lp))))"
    if loop: "chunk_loop fuel rfuel cfg env dc ?dev 0 w2 = (rl, w3)"
      and tr: "trace w3 = lp @ trace w2"
    for w2 rl w3 lp
  proof -
    from chunk_loop_partition [OF dev bs le loop] obtain evs'
      where e: "trace w3 = evs' @ trace w2"
        and p: "contiguous_from (unat (0 :: u64)) (chunks evs')
          \<and> (\<forall>(a, n) \<in> set (chunks evs').
                a < unat ?dev \<and> n = min (unat (block_sectors cfg)) (unat ?dev - a) \<and> 0 < n)
          \<and> (\<forall>e. rl = Inr (Fallthrough e) \<longrightarrow>
                unat (0 :: u64) + sum_list (map snd (chunks evs')) = unat ?dev
                \<and> (chunks evs' \<noteq> [] \<longrightarrow>
                      snd (last (chunks evs')) = unat ?dev - fst (last (chunks evs'))))"
      by blast
    from e tr have "evs' = lp" by simp
    with p show ?thesis by simp
  qed
  from run show ?thesis
  proof (cases rule: rw_sectors_cases)
    case (alloc_failed ra e0)
    with ext have evs: "evs = [Call Engine (Posix_memalign (buffer_bytes cfg)) ra e0]"
      by simp
    have "chunks evs = []"
      by (simp add: evs chunks_def chunk_seeks_Cons chunk_transfers_Cons)
    moreover have "r = Inr 1"
      using alloc_failed by (simp add: EXIT_FAILURE_def)
    ultimately show ?thesis by simp
  next
    case (open_failed ra e0 ro e1)
    with ext have evs: "evs = [Call Engine (Open_dev (engine_flags cfg dc)) ro e1,
                   Call Engine (Posix_memalign (buffer_bytes cfg)) ra e0]"
      by simp
    have "chunks evs = []"
      by (simp add: evs chunks_def chunk_seeks_Cons chunk_transfers_Cons)
    moreover have "r = Inr 1"
      using open_failed by (simp add: EXIT_FAILURE_def)
    ultimately show ?thesis by simp
  next
    case (stopped ra e0 k e1 w2 rl lp)
    from stopped ext have cs: "chunks evs = chunks lp"
      by (simp add: chunks_def chunk_seeks_Cons chunk_transfers_Cons)
    have r0: "r \<noteq> Inr 0"
    proof
      assume "r = Inr 0"
      with stopped(5) have "rl = Inr (Return 0)" by auto
      with stopped(3) have "(0 :: int) = EXIT_FAILURE"
        by (auto dest: chunk_loop_return_code)
      then show False by (simp add: EXIT_FAILURE_def)
    qed
    have nf: "\<not> randomize cfg \<and> unat ?dev < fuel \<longrightarrow> r \<noteq> Inl Out_of_fuel"
    proof
      assume a: "\<not> randomize cfg \<and> unat ?dev < fuel"
      then have "unat ?dev - unat (0 :: u64) < fuel" by simp
      from chunk_loop_enough_fuel [OF dev bs _ le this stopped(3)] a
      have "rl \<noteq> Inl Out_of_fuel" by simp
      with stopped(5) show "r \<noteq> Inl Out_of_fuel" by auto
    qed
    from part [OF stopped(3,4)] cs r0 nf show ?thesis by simp
  next
    case (completed ra e0 k e1 w2 off_end w3 lp rf e4 msg rc e6 w6 rr)
    from print_progress_final_ok [OF completed(7)] completed(8) have r: "r = Inr 0" by simp
    from print_progress_trace [OF completed(7)] obtain rep
      where rep: "trace w' = rep @ trace w6" "list_all reporter_event rep" by blast
    note no = no_engine_calls_no_chunks [OF reporter_no_calls [OF rep(2), of Engine]]
    have "evs = rep @ [Call Engine Close rc e6] @ msg @ [Call Engine Fsync rf e4] @ lp
                 @ [Call Engine (Open_dev (engine_flags cfg dc)) (Ok k) e1,
                    Call Engine (Posix_memalign (buffer_bytes cfg)) ra e0]"
      using rep(1) completed(2,4,6) ext by simp
    with no completed(5) have cs: "chunks evs = chunks lp"
      by (simp add: chunks_def chunk_seeks_Cons chunk_transfers_Cons)
    from part [OF completed(3,4)] cs r show ?thesis by simp
  qed
qed


theorem chunk_partition_witness:
  "block_sectors small_config \<noteq> 0
   \<and> rw_sectors 3 0 small_config (sim_env [] 3072) 0 (3072 div 512) DEV_CHECK init_world
     = (Inr 0, init_world \<lparr> trace := [Clock \<lparr> tv_sec = 1010, tv_usec = 0 \<rparr>,
                                         Call Engine Close (Ok 0) 0,
                                         Call Engine Fsync (Ok 0) 0,
                                         Clock \<lparr> tv_sec = 1007, tv_usec = 0 \<rparr>,
                                         Call Engine (Read 1024) (Ok 1024) 0,
                                         Call Engine (Lseek64 2048) (Ok 2048) 0,
                                         Clock \<lparr> tv_sec = 1004, tv_usec = 0 \<rparr>,
                                         Call Engine (Read 2048) (Ok 2048) 0,
                                         Call Engine (Lseek64 0) (Ok 0) 0,
                                         Call Engine (Open_dev 0x4000) (Ok 3) 0,
                                         Call Engine (Posix_memalign 2048) (Ok 0) 0],
                              start_time := \<lparr> tv_sec = 1004, tv_usec = 0 \<rparr>,
                              end_time := \<lparr> tv_sec = 1010, tv_usec = 0 \<rparr> \<rparr>)
   \<and> chunks [Clock \<lparr> tv_sec = 1010, tv_usec = 0 \<rparr>,
              Call Engine Close (Ok 0) 0,
              Call Engine Fsync (Ok 0) 0,
              Clock \<lparr> tv_sec = 1007, tv_usec = 0 \<rparr>,
              Call Engine (Read 1024) (Ok 1024) 0,
              Call Engine (Lseek64 2048) (Ok 2048) 0,
              Clock \<lparr> tv_sec = 1004, tv_usec = 0 \<rparr>,
              Call Engine (Read 2048) (Ok 2048) 0,
              Call Engine (Lseek64 0) (Ok 0) 0,
              Call Engine (Open_dev 0x4000) (Ok 3) 0,
              Call Engine (Posix_memalign 2048) (Ok 0) 0] = [(0, 4), (4, 2)]
   \<and> sum_list (map snd (chunks [Clock \<lparr> tv_sec = 1010, tv_usec = 0 \<rparr>,
              Call Engine Close (Ok 0) 0,
              Call Engine Fsync (Ok 0) 0,
              Clock \<lparr> tv_sec = 1007, tv_usec = 0 \<rparr>,
              Call Engine (Read 1024) (Ok 1024) 0,
              Call Engine (Lseek64 2048) (Ok 2048) 0,
              Clock \<lparr> tv_sec = 1004, tv_usec = 0 \<rparr>,
              Call Engine (Read 2048) (Ok 2048) 0,
              Call Engine (Lseek64 0) (Ok 0) 0,
              Call Engine (Open_dev 0x4000) (Ok 3) 0,
              Call Engine (Posix_memalign 2048) (Ok 0) 0])) = unat (3072 div 512 :: u64)"
proof -
  let ?evs = "[Clock \<lparr> tv_sec = 1010, tv_usec = 0 \<rparr>,
              Call Engine Close (Ok 0) 0,
              Call Engine Fsync (Ok 0) 0,
              Clock \<lparr> tv_sec = 1007, tv_usec = 0 \<rparr>,
              Call Engine (Read 1024) (Ok 1024) 0,
              Call Engine (Lseek64 2048) (Ok 2048) 0,
              Clock \<lparr> tv_sec = 1004, tv_usec = 0 \<rparr>,
              Call Engine (Read 2048) (Ok 2048) 0,
              Call Engine (Lseek64 0) (Ok 0) 0,
              Call Engine (Open_dev 0x4000) (Ok 3) 0,
              Call Engine (Posix_memalign 2048) (Ok 0) 0]"
  let ?w = "init_world \<lparr> trace := ?evs,
                              start_time := \<lparr> tv_sec = 1004, tv_usec = 0 \<rparr>,
                              end_time := \<lparr> tv_sec = 1010, tv_usec = 0 \<rparr> \<rparr>"
  have bs: "block_sectors small_config \<noteq> 0"
    by (simp add: small_config_def default_config_def)
  have run: "rw_sectors 3 0 small_config (sim_env [] 3072) 0 (3072 div 512) DEV_CHECK init_world
     = (Inr 0, ?w)"
    by (simp add: run_defs del: chunk_loop.simps get_random.simps)
  have ext: "trace ?w = ?evs @ trace init_world"
    by (simp add: init_world_def)
  have cs: "chunks ?evs = [(0, 4), (4, 2)]"
    by (simp add: chunks_def chunk_seeks_def chunk_transfers_def sectors_def)
  from chunk_partition [OF bs run ext]
  have "sum_list (map snd (chunks ?evs)) = unat (3072 div 512 :: u64)"
    by simp
  with bs run cs show ?thesis by simp
qed


section \<open>Fix mode\<close>



















section \<open>The throttle of the reporter\<close>

text \<open>
  \<^verbatim>\<open>print_progress\<close> keeps three static timestamps. The lemmas below describe one call by
  what it adds to the trace and what it does to \<^verbatim>\<open>start_time\<close> and \<^verbatim>\<open>end_time\<close>.
\<close>

lemma time_diff_add: "time_diff a c = time_diff a b + time_diff b c"
  by (simp add: time_diff_def field_simps)

lemma time_diff_self [simp]: "time_diff a a = 0"
  by (simp add: time_diff_def)

lemma print_progress_no_zero_divisor:
  assumes "print_progress env device_size bytes final w = (r, w')"
  shows "r \<noteq> Inl (Div_by_zero Throughput) \<and> r \<noteq> Inl (Div_by_zero Elapsed)"
  using assms
  by (auto simp: print_progress_def gettimeofday_eq Let_def fdiv_def split: if_splits sum.splits)

lemma print_progress_first_call:
  assumes "print_progress env device_size bytes final w = (r, w')"
    and "tv_sec (start_time w) = 0 \<and> tv_usec (start_time w) = 0"
  shows "r = Inr () \<and> trace w' = Clock (clock env (trace w)) # trace w
         \<and> start_time w' = clock env (trace w) \<and> end_time w' = clock env (trace w)"
  using assms by (auto simp: print_progress_def gettimeofday_eq)

lemma print_progress_throttled:
  assumes "print_progress env device_size bytes False w = (r, w')"
    and "time_diff (end_time w) (clock env (trace w)) < 1 / 2"
  shows "trace w' = Clock (clock env (trace w)) # trace w"
  using assms by (auto simp: print_progress_def gettimeofday_eq split: if_splits)

lemma print_progress_shape:
  assumes pp: "print_progress env device_size bytes final w = (r, w')"
  obtains
    (first) "tv_sec (start_time w) = 0 \<and> tv_usec (start_time w) = 0"
      "trace w' = Clock (clock env (trace w)) # trace w"
      "start_time w' = clock env (trace w)" "end_time w' = clock env (trace w)"
  | (throttled) "\<not> (tv_sec (start_time w) = 0 \<and> tv_usec (start_time w) = 0)" "\<not> final"
      "time_diff (end_time w) (clock env (trace w)) < 1 / 2"
      "trace w' = Clock (clock env (trace w)) # trace w"
      "start_time w' = start_time w" "end_time w' = end_time w"
  | (silent) pre where "\<not> (tv_sec (start_time w) = 0 \<and> tv_usec (start_time w) = 0)"
      "final \<or> 1 / 2 \<le> time_diff (end_time w) (clock env (trace w))"
      "pre = [] \<or> pre = [Print Clear_line]"
      "trace w' = pre @ Clock (clock env (trace w)) # trace w"
      "start_time w' = start_time w" "end_time w' = clock env (trace w)"
  | (printed) m where "\<not> (tv_sec (start_time w) = 0 \<and> tv_usec (start_time w) = 0)"
      "final \<or> 1 / 2 \<le> time_diff (end_time w) (clock env (trace w))"
      "is_report (Print m)" "is_progress (Print m) = (\<not> final)"
      "trace w' = [Flush, Print m, Print Clear_line, Clock (clock env (trace w))] @ trace w"
      "start_time w' = start_time w" "end_time w' = clock env (trace w)"
proof (cases "tv_sec (start_time w) = 0 \<and> tv_usec (start_time w) = 0")
  case True
  with pp first show thesis
    by (auto simp: print_progress_def gettimeofday_eq)
next
  case started: False
  show thesis
  proof (cases "\<not> final \<and> time_diff (end_time w) (clock env (trace w)) < 1 / 2")
    case True
    with pp started throttled show thesis
      by (auto simp: print_progress_def gettimeofday_eq)
  next
    case False
    then have pass: "final \<or> 1 / 2 \<le> time_diff (end_time w) (clock env (trace w))"
      by auto
    from pp started False
    have "(\<exists>pre. (pre = [] \<or> pre = [Print Clear_line])
              \<and> trace w' = pre @ Clock (clock env (trace w)) # trace w
              \<and> start_time w' = start_time w \<and> end_time w' = clock env (trace w))
        \<or> (\<exists>m. is_report (Print m) \<and> is_progress (Print m) = (\<not> final)
              \<and> trace w' = [Flush, Print m, Print Clear_line, Clock (clock env (trace w))] @ trace w
              \<and> start_time w' = start_time w \<and> end_time w' = clock env (trace w))"
      by (auto simp: print_progress_def gettimeofday_eq Let_def fdiv_def
          split: if_splits sum.splits)
    with started pass silent printed show thesis by blast
  qed
qed

lemma progress_times_silent [simp]:
  "progress_times (Clock t # evs) = progress_times evs"
  "progress_times (Print Clear_line # evs) = progress_times evs"
  "progress_times (Flush # evs) = progress_times evs"
  by simp_all

lemma throttle_inv_init: "throttle_inv init_world"
  by (simp add: throttle_inv_def init_world_def)

lemma spaced_report:
  assumes "spaced ts" and "\<forall>t \<in> set ts. 0 \<le> time_diff t e"
    and "1 / 2 \<le> time_diff e now"
  shows "spaced (now # ts)"
proof -
  have "1 / 2 \<le> time_diff t now" if "t \<in> set ts" for t
  proof -
    from that assms(2) have "0 \<le> time_diff t e" by blast
    with assms(3) show ?thesis
      using time_diff_add [of t now e] by simp
  qed
  with assms(1) show ?thesis by simp
qed

text \<open>
  A call that is not final keeps the invariant, and a progress line that it prints is at
  least half a second after all earlier ones.
\<close>

lemma print_progress_keeps_throttle:
  assumes pp: "print_progress env device_size bytes False w = (r, w')"
    and inv: "throttle_inv w"
  shows "throttle_inv w'
     \<and> (spaced (progress_times (trace w)) \<longrightarrow> spaced (progress_times (trace w')))"
proof -
  let ?now = "clock env (trace w)"
  from inv have unset: "tv_sec (start_time w) = 0 \<and> tv_usec (start_time w) = 0
                  \<longrightarrow> progress_times (trace w) = []"
    and before: "\<forall>t \<in> set (progress_times (trace w)). 0 \<le> time_diff t (end_time w)"
    by (simp_all add: throttle_inv_def)
  have later: "\<forall>t \<in> set (progress_times (trace w)). 0 \<le> time_diff t ?now"
    if "1 / 2 \<le> time_diff (end_time w) ?now"
  proof
    fix t assume "t \<in> set (progress_times (trace w))"
    with before have "0 \<le> time_diff t (end_time w)" by blast
    with that show "0 \<le> time_diff t ?now"
      using time_diff_add [of t ?now "end_time w"] by simp
  qed
  from pp show ?thesis
  proof (cases rule: print_progress_shape)
    case first
    with unset show ?thesis by (simp add: throttle_inv_def)
  next
    case throttled
    with before show ?thesis by (auto simp: throttle_inv_def)
  next
    case (silent pre)
    with later show ?thesis by (auto simp: throttle_inv_def)
  next
    case (printed m)
    then have pass: "1 / 2 \<le> time_diff (end_time w) ?now" by simp
    from printed have rt: "progress_times (trace w') = ?now # progress_times (trace w)"
      by simp
    have "throttle_inv w'"
      unfolding throttle_inv_def rt using printed later [OF pass] by auto
    moreover have "spaced (progress_times (trace w'))" if "spaced (progress_times (trace w))"
      unfolding rt using that before pass by (rule spaced_report)
    ultimately show ?thesis by simp
  qed
qed

lemma print_progress_final_times:
  assumes pp: "print_progress env device_size bytes True w = (r, w')"
  shows "progress_times (trace w') = progress_times (trace w)"
  using pp by (cases rule: print_progress_shape) auto

text \<open>
  The rest of the engine never touches the timestamps and prints no report, so the
  invariant holds at every call of the reporter in a run.
\<close>

lemma quiet_refl: "quiet w w"
  by (simp add: quiet_def)

lemma quiet_trans: "quiet w w1 \<Longrightarrow> quiet w1 w2 \<Longrightarrow> quiet w w2"
  by (auto simp: quiet_def)

lemma syscall_quiet: "syscall env c rq w = (rp, w') \<Longrightarrow> quiet w w'"
  by (auto simp: syscall_def Let_def quiet_def)

lemma printf_quiet: "\<not> is_report (Print m) \<Longrightarrow> quiet w (printf m w)"
  by (simp add: quiet_def)

lemma fflush_quiet: "quiet w (fflush w)"
  by (simp add: quiet_def)

lemma clear_line_quiet: "quiet w (clear_line w)"
  by (simp add: quiet_def)

lemma quiet_printf_right:
  "\<not> is_report (Print m) \<Longrightarrow> quiet w w' \<Longrightarrow> quiet w (printf m w')"
  by (erule quiet_trans [OF _ printf_quiet])

lemma is_progress_report: "is_progress e \<Longrightarrow> is_report e"
  by (cases e rule: is_progress.cases) simp_all

lemma progress_times_append:
  "list_all (\<lambda>e. \<not> is_report e) evs \<Longrightarrow> progress_times (evs @ t) = progress_times t"
  by (induction evs) (auto dest: is_progress_report)

lemma quiet_progress_times: "quiet w w' \<Longrightarrow> progress_times (trace w') = progress_times (trace w)"
  by (auto simp: quiet_def progress_times_append)

lemma quiet_throttle_inv: "quiet w w' \<Longrightarrow> throttle_inv w \<Longrightarrow> throttle_inv w'"
  by (frule quiet_progress_times) (simp add: throttle_inv_def quiet_def)

lemma get_random_quiet: "get_random fuel env n w = (r, w') \<Longrightarrow> quiet w w'"
proof (induction fuel arbitrary: n w)
  case 0
  then show ?case by (simp add: quiet_refl)
next
  case (Suc fuel)
  obtain rp w1 where sc: "syscall env Randomizer (Getrandom n) w = (rp, w1)"
    by (cases "syscall env Randomizer (Getrandom n) w") auto
  note q1 = syscall_quiet [OF sc]
  from Suc.prems sc have "w' = w1 \<or> (\<exists>n'. get_random fuel env n' w1 = (r, w'))"
    by (auto simp: Let_def split: if_splits)
  then show ?case
    using q1 by (auto dest: Suc.IH intro: quiet_trans)
qed

lemma init_sector_quiet: "init_sector rfuel cfg env w = (r, w') \<Longrightarrow> quiet w w'"
  by (auto simp: init_sector_def quiet_refl split: if_splits dest: get_random_quiet)

lemma fill_loop_quiet: "fill_loop rfuel cfg env n s w = (r, w') \<Longrightarrow> quiet w w'"
proof (induction rfuel cfg env n s w rule: fill_loop.induct)
  case (1 rfuel cfg env n s w)
  show ?case
  proof (cases "s < n")
    case False
    with "1.prems" show ?thesis by (simp add: quiet_refl fill_loop.simps)
  next
    case True
    obtain r1 w1 where i: "init_sector rfuel cfg env w = (r1, w1)"
      by (cases "init_sector rfuel cfg env w") auto
    note q1 = init_sector_quiet [OF i]
    show ?thesis
    proof (cases r1)
      case (Inl h)
      with "1.prems" True i q1 show ?thesis by (simp add: fill_loop.simps)
    next
      case (Inr u)
      with "1.prems" True i have "fill_loop rfuel cfg env n (s + 1) w1 = (r, w')"
        by (simp add: fill_loop.simps)
      from "1.IH" [OF True i [symmetric] _ this] Inr have "quiet w1 w'"
        by simp
      with q1 show ?thesis by (rule quiet_trans)
    qed
  qed
qed

lemma check_sector_times:
  "check_sector rfuel cfg env dc sector w = (r, w') \<Longrightarrow>
   start_time w' = start_time w \<and> end_time w' = end_time w"
  by (auto simp: check_sector_def quiet_def split: prod.splits if_splits sum.splits
      dest!: syscall_times init_sector_quiet)

lemma fallback_not_report: "fallback_event dc e \<Longrightarrow> \<not> is_report e"
  by (cases "(dc, e)" rule: fallback_event.cases) simp_all

lemma check_sector_quiet:
  assumes cs: "check_sector rfuel cfg env dc sector w = (r, w')"
  shows "quiet w w'"
proof -
  from check_sector_trace [OF cs] obtain evs where t: "trace w' = evs @ trace w" by blast
  from check_sector_alphabet [OF cs t] have "list_all (fallback_event dc) evs" .
  then have "list_all (\<lambda>e. \<not> is_report e) evs"
    by (auto simp: list_all_iff dest: fallback_not_report)
  with t check_sector_times [OF cs] show ?thesis
    by (auto simp: quiet_def)
qed

lemma sector_loop_quiet:
  "sector_loop rfuel cfg env dc bound sector w = (r, w') \<Longrightarrow> quiet w w'"
proof (induction rfuel cfg env dc bound sector w rule: sector_loop.induct)
  case (1 rfuel cfg env dc bound sector w)
  note run = "1.prems"
  show ?case
  proof (cases "sector < bound")
    case False
    with run show ?thesis by (auto simp: sector_loop.simps fflush_quiet)
  next
    case True
    obtain r1 w1 where cs: "check_sector rfuel cfg env dc sector w = (r1, w1)"
      by (cases "check_sector rfuel cfg env dc sector w") auto
    note q1 = check_sector_quiet [OF cs]
    show ?thesis
    proof (cases r1)
      case (Inl h)
      with run True cs q1 show ?thesis by (simp add: sector_loop.simps)
    next
      case (Inr fl)
      show ?thesis
      proof (cases fl)
        case Return_void
        with run True cs q1 Inr show ?thesis by (simp add: sector_loop.simps)
      next
        case Continue
        with run True cs Inr
        have rec: "sector_loop rfuel cfg env dc bound (sector + 1) w1 = (r, w')"
          by (simp add: sector_loop.simps)
        from Inr Continue have cont: "r1 = Inr Continue" by simp
        from "1.IH" [OF True cs [symmetric] cont refl rec] have "quiet w1 w'" .
        with q1 show ?thesis by (rule quiet_trans)
      qed
    qed
  qed
qed

lemma check_one_by_one_quiet:
  "check_one_by_one rfuel cfg env n off dc w = (r, w') \<Longrightarrow> quiet w w'"
  unfolding check_one_by_one_def
  by (rule quiet_trans [OF clear_line_quiet sector_loop_quiet])

lemma chunk_io_quiet:
  assumes io: "chunk_io rfuel cfg env dc off n w = (r, w')"
  shows "quiet w w'"
proof (cases "dc = DEV_FORMAT")
  case True
  define w1 where "w1 = (if debug cfg then printf (Dbg_wipe off (off + n)) w else w)"
  have q1: "quiet w w1"
    by (simp add: w1_def quiet_refl printf_quiet)
  obtain r2 w2 where fl: "fill_loop rfuel cfg env n 0 w1 = (r2, w2)"
    by (cases "fill_loop rfuel cfg env n 0 w1") auto
  note q2 = quiet_trans [OF q1 fill_loop_quiet [OF fl]]
  show ?thesis
  proof (cases r2)
    case (Inl h)
    with io True fl q2 show ?thesis
      unfolding w1_def by (simp add: chunk_io_def Let_def)
  next
    case (Inr u)
    obtain rp w3 where sc: "syscall env Engine (Write (512 * n)) w2 = (rp, w3)"
      by (cases "syscall env Engine (Write (512 * n)) w2") auto
    note q3 = quiet_trans [OF q2 syscall_quiet [OF sc]]
    from io True fl Inr sc
    have "w' = w3 \<or> w' = printf (Write_error off) w3"
      unfolding w1_def by (auto simp: chunk_io_def Let_def split: if_splits)
    with q3 show ?thesis
      by (auto intro: quiet_printf_right)
  qed
next
  case False
  obtain rp w1 where sc: "syscall env Engine (Read (512 * n)) w = (rp, w1)"
    by (cases "syscall env Engine (Read (512 * n)) w") auto
  note q1 = syscall_quiet [OF sc]
  from io False sc
  have "w' = w1 \<or> check_one_by_one rfuel cfg env n off dc w1 = (r, w')"
    by (auto simp: chunk_io_def split: if_splits)
  with q1 show ?thesis
    by (auto dest: check_one_by_one_quiet intro: quiet_trans)
qed

lemma chunk_pass_throttle:
  assumes cp: "chunk_pass rfuel cfg env dc dev off w = (r, w')"
    and inv: "throttle_inv w" and sp: "spaced (progress_times (trace w))"
  shows "throttle_inv w' \<and> spaced (progress_times (trace w'))"
proof -
  define n where "n = block_size_at cfg dev off"
  obtain r1 w1 where s1: "syscall env Engine (Lseek64 (off * 512)) w = (r1, w1)"
    by (cases "syscall env Engine (Lseek64 (off * 512)) w") auto
  note q1 = syscall_quiet [OF s1]
  have keep: "throttle_inv v \<and> spaced (progress_times (trace v))" if "quiet w v" for v
    using that inv sp by (simp add: quiet_throttle_inv quiet_progress_times)
  show ?thesis
  proof (cases "ret_val r1 < 0")
    case True
    obtain rc w2 where s2: "syscall env Engine Close (printf (Seek_error off (errno w1)) w1) = (rc, w2)"
      by (cases "syscall env Engine Close (printf (Seek_error off (errno w1)) w1)") auto
    have "quiet w w2"
      by (rule quiet_trans [OF quiet_printf_right [OF _ q1] syscall_quiet [OF s2]]) simp
    moreover from cp s1 s2 True have "w' = w2"
      by (simp add: chunk_pass_def Let_def)
    ultimately show ?thesis using keep by simp
  next
    case False
    obtain rio w3 where io: "chunk_io rfuel cfg env dc off n w1 = (rio, w3)"
      by (cases "chunk_io rfuel cfg env dc off n w1") auto
    note q3 = quiet_trans [OF q1 chunk_io_quiet [OF io]]
    show ?thesis
    proof (cases rio)
      case (Inl h)
      with cp s1 io False have "w' = w3"
        unfolding n_def by (simp add: chunk_pass_def Let_def)
      with q3 keep show ?thesis by simp
    next
      case (Inr u)
      obtain rr w4 where pp: "print_progress env (dev * 512) ((off + n) * 512) False w3 = (rr, w4)"
        by (cases "print_progress env (dev * 512) ((off + n) * 512) False w3") auto
      from cp s1 io False Inr pp have "w' = w4"
        unfolding n_def by (auto simp: chunk_pass_def Let_def split: sum.splits)
      with print_progress_keeps_throttle [OF pp] keep [OF q3] show ?thesis by simp
    qed
  qed
qed

lemma chunk_loop_throttle:
  assumes "chunk_loop fuel rfuel cfg env dc dev off w = (r, w')"
    and "throttle_inv w" and "spaced (progress_times (trace w))"
  shows "throttle_inv w' \<and> spaced (progress_times (trace w'))"
  using assms
proof (induction fuel arbitrary: off w)
  case 0
  then show ?case by simp
next
  case (Suc fuel)
  show ?case
  proof (cases "off < dev")
    case False
    with Suc.prems show ?thesis by simp
  next
    case True
    obtain r1 w1 where cp: "chunk_pass rfuel cfg env dc dev off w = (r1, w1)"
      by (cases "chunk_pass rfuel cfg env dc dev off w") auto
    note k1 = chunk_pass_throttle [OF cp Suc.prems(2) Suc.prems(3)]
    from Suc.prems(1) True cp
    have "w' = w1 \<or> (\<exists>off'. chunk_loop fuel rfuel cfg env dc dev off' w1 = (r, w'))"
      by (auto split: sum.splits pass.splits)
    with k1 show ?thesis
      by (auto dest: Suc.IH)
  qed
qed

lemma rw_sectors_spaced:
  assumes rw: "rw_sectors fuel rfuel cfg env off dev dc w = (r, w')"
    and inv: "throttle_inv w" and sp: "spaced (progress_times (trace w))"
  shows "spaced (progress_times (trace w'))"
proof -
  have keep: "throttle_inv v \<and> spaced (progress_times (trace v))" if "quiet w v" for v
    using that inv sp by (simp add: quiet_throttle_inv quiet_progress_times)
  obtain ra w1 where s1: "syscall env Engine (Posix_memalign (buffer_bytes cfg)) w = (ra, w1)"
    by (cases "syscall env Engine (Posix_memalign (buffer_bytes cfg)) w") auto
  obtain ro w2 where s2: "syscall env Engine (Open_dev (engine_flags cfg dc)) w1 = (ro, w2)"
    by (cases "syscall env Engine (Open_dev (engine_flags cfg dc)) w1") auto
  note q1 = syscall_quiet [OF s1]
  note q2 = quiet_trans [OF q1 syscall_quiet [OF s2]]
  obtain rl w3 where lp: "chunk_loop fuel rfuel cfg env dc dev off w2 = (rl, w3)"
    by (cases "chunk_loop fuel rfuel cfg env dc dev off w2") auto
  from chunk_loop_throttle [OF lp] keep [OF q2]
  have k3: "throttle_inv w3 \<and> spaced (progress_times (trace w3))"
    by simp
  obtain rf w4 where s4: "syscall env Engine Fsync w3 = (rf, w4)"
    by (cases "syscall env Engine Fsync w3") auto
  define w5 where "w5 = (if ret_val rf < 0 then printf (Fsync_failed (errno w4)) w4 else w4)"
  obtain rc w6 where s6: "syscall env Engine Close w5 = (rc, w6)"
    by (cases "syscall env Engine Close w5") auto
  have "quiet w4 w5"
    by (simp add: w5_def quiet_refl printf_quiet)
  with syscall_quiet [OF s4] syscall_quiet [OF s6] have q6: "quiet w3 w6"
    by (blast intro: quiet_trans)
  from k3 have k6: "spaced (progress_times (trace w6))"
    by (simp add: quiet_progress_times [OF q6])
  from rw s1 s2 lp s4 s6
  have "w' = w1 \<or> w' = w2 \<or> w' = w3
        \<or> (\<exists>rr oe. print_progress env (dev * 512) (oe * 512) True w6 = (rr, w'))"
    unfolding w5_def
    by (auto simp: rw_sectors_def Let_def split: if_splits sum.splits loop_exit.splits prod.splits)
  with keep [OF q1] keep [OF q2] k3 k6 show ?thesis
    by (auto simp: print_progress_final_times)
qed

lemma device_size_sec_quiet:
  "device_size_sec env size0 w = (rs, w') \<Longrightarrow> quiet w w'"
  by (auto simp: device_size_sec_def Let_def split: prod.splits if_splits
      dest!: syscall_quiet intro: quiet_trans)

lemma cmd_dev_spaced:
  assumes cd: "cmd_dev fuel rfuel cfg env device size0 dc w = (r, w')"
    and inv: "throttle_inv w" and sp: "spaced (progress_times (trace w))"
  shows "spaced (progress_times (trace w'))"
proof -
  define w1 where "w1 = (if debug cfg then printf (Dbg_running device) w else w)"
  have q1: "quiet w w1"
    by (simp add: w1_def quiet_refl printf_quiet)
  obtain rs w2 where ds: "device_size_sec env size0 w1 = (rs, w2)"
    by (cases "device_size_sec env size0 w1") auto
  note q2 = quiet_trans [OF q1 device_size_sec_quiet [OF ds]]
  from q2 inv sp have k2: "throttle_inv w2" "spaced (progress_times (trace w2))"
    by (simp_all add: quiet_throttle_inv quiet_progress_times)
  from cd ds have "w' = w2 \<or> (\<exists>sz. rw_sectors fuel rfuel cfg env 0 sz dc w2 = (r, w'))"
    unfolding w1_def by (auto simp: cmd_dev_def Let_def split: if_splits prod.splits)
  with k2 show ?thesis
    by (auto dest: rw_sectors_spaced)
qed

text \<open>What can stop a run: the random source, the fuel, and the division by the device size.\<close>

lemma get_random_halt:
  "get_random fuel env n w = (Inl h, w') \<Longrightarrow> h = Assert_failed \<or> h = Out_of_fuel"
  by (induction fuel arbitrary: n w) (auto simp: Let_def split: prod.splits if_splits)

lemma init_sector_halt:
  "init_sector rfuel cfg env w = (Inl h, w') \<Longrightarrow> h = Assert_failed \<or> h = Out_of_fuel"
  by (auto simp: init_sector_def split: if_splits dest: get_random_halt)

lemma fill_loop_halt:
  "fill_loop rfuel cfg env n s w = (Inl h, w') \<Longrightarrow> h = Assert_failed \<or> h = Out_of_fuel"
proof (induction rfuel cfg env n s w rule: fill_loop.induct)
  case (1 rfuel cfg env n s w)
  show ?case
  proof (cases "s < n")
    case False
    with "1.prems" show ?thesis by (simp add: fill_loop.simps)
  next
    case True
    obtain r1 w1 where i: "init_sector rfuel cfg env w = (r1, w1)"
      by (cases "init_sector rfuel cfg env w") auto
    show ?thesis
    proof (cases r1)
      case (Inl h1)
      with "1.prems" True i show ?thesis
        by (auto simp: fill_loop.simps dest: init_sector_halt)
    next
      case (Inr u)
      with "1.prems" True i have "fill_loop rfuel cfg env n (s + 1) w1 = (Inl h, w')"
        by (simp add: fill_loop.simps)
      from "1.IH" [OF True i [symmetric] _ this] Inr show ?thesis
        by simp
    qed
  qed
qed

lemma check_sector_halt:
  "check_sector rfuel cfg env dc sector w = (Inl h, w') \<Longrightarrow> h = Assert_failed \<or> h = Out_of_fuel"
  by (auto simp: check_sector_def split: prod.splits if_splits sum.splits
      dest: init_sector_halt)

lemma sector_loop_halt:
  "sector_loop rfuel cfg env dc bound sector w = (Inl h, w') \<Longrightarrow>
   h = Assert_failed \<or> h = Out_of_fuel"
proof (induction rfuel cfg env dc bound sector w rule: sector_loop.induct)
  case (1 rfuel cfg env dc bound sector w)
  note run = "1.prems"
  show ?case
  proof (cases "sector < bound")
    case False
    with run show ?thesis by (auto simp: sector_loop.simps)
  next
    case True
    obtain r1 w1 where cs: "check_sector rfuel cfg env dc sector w = (r1, w1)"
      by (cases "check_sector rfuel cfg env dc sector w") auto
    show ?thesis
    proof (cases r1)
      case (Inl h1)
      with run True cs show ?thesis
        by (auto simp: sector_loop.simps dest: check_sector_halt)
    next
      case (Inr fl)
      show ?thesis
      proof (cases fl)
        case Return_void
        with run True cs Inr show ?thesis by (simp add: sector_loop.simps)
      next
        case Continue
        with run True cs Inr
        have rec: "sector_loop rfuel cfg env dc bound (sector + 1) w1 = (Inl h, w')"
          by (simp add: sector_loop.simps)
        from Inr Continue have cont: "r1 = Inr Continue" by simp
        from "1.IH" [OF True cs [symmetric] cont refl rec] show ?thesis .
      qed
    qed
  qed
qed

lemma chunk_io_halt:
  "chunk_io rfuel cfg env dc off n w = (Inl h, w') \<Longrightarrow> h = Assert_failed \<or> h = Out_of_fuel"
  by (auto simp: chunk_io_def check_one_by_one_def Let_def
      split: prod.splits if_splits sum.splits
      dest: fill_loop_halt sector_loop_halt)

lemma chunk_pass_halt:
  assumes "chunk_pass rfuel cfg env dc dev off w = (Inl h, w')"
  shows "h = Assert_failed \<or> h = Out_of_fuel \<or> h = Div_by_zero Device_bytes"
  using assms
  by (auto simp: chunk_pass_def Let_def split: prod.splits if_splits sum.splits
      dest: chunk_io_halt print_progress_halt)

lemma chunk_loop_halt:
  assumes "chunk_loop fuel rfuel cfg env dc dev off w = (Inl h, w')"
  shows "h = Assert_failed \<or> h = Out_of_fuel \<or> h = Div_by_zero Device_bytes"
  using assms
proof (induction fuel arbitrary: off w)
  case 0
  then show ?case by simp
next
  case (Suc fuel)
  show ?case
  proof (cases "off < dev")
    case False
    with Suc.prems show ?thesis by simp
  next
    case True
    obtain r1 w1 where cp: "chunk_pass rfuel cfg env dc dev off w = (r1, w1)"
      by (cases "chunk_pass rfuel cfg env dc dev off w") auto
    from Suc.prems True cp
    have "r1 = Inl h \<or> (\<exists>off'. chunk_loop fuel rfuel cfg env dc dev off' w1 = (Inl h, w'))"
      by (auto split: sum.splits pass.splits)
    with cp show ?thesis
      by (auto dest: Suc.IH chunk_pass_halt)
  qed
qed

lemma rw_sectors_halt:
  assumes "rw_sectors fuel rfuel cfg env off dev dc w = (Inl h, w')"
  shows "h = Assert_failed \<or> h = Out_of_fuel \<or> h = Div_by_zero Device_bytes"
  using assms
  by (auto simp: rw_sectors_def Let_def split: prod.splits if_splits sum.splits loop_exit.splits
      dest: chunk_loop_halt print_progress_final_ok)

lemma cmd_dev_halt:
  assumes "cmd_dev fuel rfuel cfg env device size0 dc w = (Inl h, w')"
  shows "h = Assert_failed \<or> h = Out_of_fuel \<or> h = Div_by_zero Device_bytes"
  using assms
  by (auto simp: cmd_dev_def Let_def split: prod.splits if_splits dest: rw_sectors_halt)

text \<open>
  Claim C8. One call of the reporter never divides by a throughput of zero, and never by
  an elapsed time of zero: a call with either returns before the division. The first call,
  the one that finds the start time unset, records it and adds nothing but its reading of
  the clock. A call that is not final keeps the invariant of the throttle, and when a
  progress line of the trace was printed less than half a second before the call reads the
  clock, the call prints nothing. In a whole run of the command from the initial state of
  the process, no division by a zero throughput or a zero elapsed time stops the run, and
  any two progress lines are at least half a second apart, by the clock readings of the
  calls that printed them.
\<close>

theorem progress_throttle:
  "(print_progress env device_size bytes final w = (r, w') \<longrightarrow>
       r \<noteq> Inl (Div_by_zero Throughput) \<and> r \<noteq> Inl (Div_by_zero Elapsed)
     \<and> (tv_sec (start_time w) = 0 \<and> tv_usec (start_time w) = 0 \<longrightarrow>
           r = Inr () \<and> trace w' = Clock (clock env (trace w)) # trace w
           \<and> start_time w' = clock env (trace w))
     \<and> (\<not> final \<and> throttle_inv w \<longrightarrow>
           throttle_inv w'
           \<and> ((\<exists>t \<in> set (progress_times (trace w)). time_diff t (clock env (trace w)) < 1 / 2)
                 \<longrightarrow> trace w' = Clock (clock env (trace w)) # trace w)))
   \<and> (cmd_dev fuel rfuel cfg env device size0 dc init_world = (r0, w0) \<longrightarrow>
       r0 \<noteq> Inl (Div_by_zero Throughput) \<and> r0 \<noteq> Inl (Div_by_zero Elapsed)
     \<and> spaced (progress_times (trace w0)))"
proof (intro conjI impI)
  assume pp: "print_progress env device_size bytes final w = (r, w')"
  show "r \<noteq> Inl (Div_by_zero Throughput)" "r \<noteq> Inl (Div_by_zero Elapsed)"
    using print_progress_no_zero_divisor [OF pp] by simp_all
  {
    assume "tv_sec (start_time w) = 0 \<and> tv_usec (start_time w) = 0"
    from print_progress_first_call [OF pp this]
    show "r = Inr ()" "trace w' = Clock (clock env (trace w)) # trace w"
      "start_time w' = clock env (trace w)"
      by simp_all
  }
  {
    let ?now = "clock env (trace w)"
    assume a: "\<not> final \<and> throttle_inv w"
    then have nf: "\<not> final" and inv: "throttle_inv w" by simp_all
    from inv
    have before: "\<forall>t \<in> set (progress_times (trace w)). 0 \<le> time_diff t (end_time w)"
      by (simp add: throttle_inv_def)
    from pp nf have pp': "print_progress env device_size bytes False w = (r, w')" by simp
    from print_progress_keeps_throttle [OF pp' inv] show "throttle_inv w'" by simp
    {
      assume "\<exists>t \<in> set (progress_times (trace w)). time_diff t ?now < 1 / 2"
      then obtain t where t: "t \<in> set (progress_times (trace w))" "time_diff t ?now < 1 / 2"
        by blast
      with before have "0 \<le> time_diff t (end_time w)" by blast
      with t(2) have "time_diff (end_time w) ?now < 1 / 2"
        using time_diff_add [of t ?now "end_time w"] by simp
      with pp' show "trace w' = Clock ?now # trace w"
        by (rule print_progress_throttled)
    }
  }
next
  assume cd: "cmd_dev fuel rfuel cfg env device size0 dc init_world = (r0, w0)"
  from cd show "r0 \<noteq> Inl (Div_by_zero Throughput)" "r0 \<noteq> Inl (Div_by_zero Elapsed)"
    by (auto dest: cmd_dev_halt)
  from cd throttle_inv_init show "spaced (progress_times (trace w0))"
    by (rule cmd_dev_spaced) (simp add: init_world_def)
qed

text \<open>
  A call 0.3 seconds after a progress line prints nothing, and the first call of a run
  only sets the start time. A check of a device of 3 MiB in chunks of 1 MiB prints two
  progress lines, six seconds apart.
\<close>

theorem progress_throttle_witness:
  "throttle_inv reported_world
   \<and> (\<exists>t \<in> set (progress_times (trace reported_world)).
          time_diff t \<lparr> tv_sec = 100, tv_usec = 300000 \<rparr> < 1 / 2)
   \<and> print_progress (fixed_clock_env \<lparr> tv_sec = 100, tv_usec = 300000 \<rparr>) 1048576 524288 False
         reported_world
       = (Inr (), reported_world \<lparr> trace := Clock \<lparr> tv_sec = 100, tv_usec = 300000 \<rparr>
                                               # trace reported_world \<rparr>)
   \<and> throttle_inv (reported_world \<lparr> trace := Clock \<lparr> tv_sec = 100, tv_usec = 300000 \<rparr>
                                               # trace reported_world \<rparr>)
   \<and> print_progress (fixed_clock_env \<lparr> tv_sec = 100, tv_usec = 300000 \<rparr>) 1048576 524288 False
         init_world
       = (Inr (), init_world \<lparr> trace := [Clock \<lparr> tv_sec = 100, tv_usec = 300000 \<rparr>],
                                start_time := \<lparr> tv_sec = 100, tv_usec = 300000 \<rparr>,
                                end_time := \<lparr> tv_sec = 100, tv_usec = 300000 \<rparr> \<rparr>)
   \<and> fst (cmd_dev 4 0 (default_config \<lparr> block_sectors := 2048 \<rparr>) (sim_env [] 3145728)
             ''sda'' 0 DEV_CHECK init_world) = Inr 0
   \<and> progress_times (trace (snd (cmd_dev 4 0 (default_config \<lparr> block_sectors := 2048 \<rparr>)
                                    (sim_env [] 3145728) ''sda'' 0 DEV_CHECK init_world)))
       = [\<lparr> tv_sec = 1017, tv_usec = 0 \<rparr>, \<lparr> tv_sec = 1011, tv_usec = 0 \<rparr>]
   \<and> spaced (progress_times (trace (snd (cmd_dev 4 0 (default_config \<lparr> block_sectors := 2048 \<rparr>)
                                    (sim_env [] 3145728) ''sda'' 0 DEV_CHECK init_world))))"
proof -
  let ?env = "fixed_clock_env \<lparr> tv_sec = 100, tv_usec = 300000 \<rparr>"
  let ?w' = "reported_world \<lparr> trace := Clock \<lparr> tv_sec = 100, tv_usec = 300000 \<rparr>
                                               # trace reported_world \<rparr>"
  let ?W = "init_world \<lparr> trace := [Flush, Print (Finished_line 0 15 0 3 (1 / 5)),
                                    Print Clear_line,
                                    Clock \<lparr> tv_sec = 1023, tv_usec = 0 \<rparr>,
                                    Call Engine Close (Ok 0) 0,
                                    Call Engine Fsync (Ok 0) 0,
                                    Flush, Print (Progress_line 100 0 0 3 (1 / 3)),
                                    Print Clear_line,
                                    Clock \<lparr> tv_sec = 1017, tv_usec = 0 \<rparr>,
                                    Call Engine (Read 1048576) (Ok 1048576) 0,
                                    Call Engine (Lseek64 2097152) (Ok 2097152) 0,
                                    Flush, Print (Progress_line (200 / 3) 0 1 2 (2 / 3)),
                                    Print Clear_line,
                                    Clock \<lparr> tv_sec = 1011, tv_usec = 0 \<rparr>,
                                    Call Engine (Read 1048576) (Ok 1048576) 0,
                                    Call Engine (Lseek64 1048576) (Ok 1048576) 0,
                                    Clock \<lparr> tv_sec = 1008, tv_usec = 0 \<rparr>,
                                    Call Engine (Read 1048576) (Ok 1048576) 0,
                                    Call Engine (Lseek64 0) (Ok 0) 0,
                                    Call Engine (Open_dev 0x4000) (Ok 3) 0,
                                    Call Engine (Posix_memalign 1048576) (Ok 0) 0,
                                    Call Resolver Close (Ok 0) 0,
                                    Call Resolver Ioctl_BLKGETSIZE64 (Ok 0) 0,
                                    Call Resolver (Open_dev 0) (Ok 3) 0,
                                    Call Resolver Stat (Ok 0) 0],
                          start_time := \<lparr> tv_sec = 1008, tv_usec = 0 \<rparr>,
                          end_time := \<lparr> tv_sec = 1023, tv_usec = 0 \<rparr> \<rparr>"
  have inv: "throttle_inv reported_world"
    by (simp add: throttle_inv_def reported_world_def time_diff_def)
  have near: "\<exists>t \<in> set (progress_times (trace reported_world)).
          time_diff t \<lparr> tv_sec = 100, tv_usec = 300000 \<rparr> < 1 / 2"
    by (simp add: reported_world_def time_diff_def)
  have run: "print_progress ?env 1048576 524288 False reported_world = (Inr (), ?w')"
    by (simp add: print_progress_def gettimeofday_def fixed_clock_env_def reported_world_def
        time_diff_def Let_def)
  have first: "print_progress ?env 1048576 524288 False init_world
       = (Inr (), init_world \<lparr> trace := [Clock \<lparr> tv_sec = 100, tv_usec = 300000 \<rparr>],
                                start_time := \<lparr> tv_sec = 100, tv_usec = 300000 \<rparr>,
                                end_time := \<lparr> tv_sec = 100, tv_usec = 300000 \<rparr> \<rparr>)"
    by (simp add: print_progress_def gettimeofday_def fixed_clock_env_def init_world_def Let_def)
  have fl: "\<lfloor>3 / 2 :: rat\<rfloor> = 1"
    using floor_divide_of_int_eq [of 3 2, where ?'a = rat] by simp
  have dev: "cmd_dev 4 0 (default_config \<lparr> block_sectors := 2048 \<rparr>) (sim_env [] 3145728)
               ''sda'' 0 DEV_CHECK init_world = (Inr 0, ?W)"
    by (simp add: run_defs to_ull_def fl del: chunk_loop.simps get_random.simps)
  have times: "progress_times (trace ?W)
       = [\<lparr> tv_sec = 1017, tv_usec = 0 \<rparr>, \<lparr> tv_sec = 1011, tv_usec = 0 \<rparr>]"
    by (simp add: init_world_def)
  from progress_throttle [THEN conjunct1, THEN mp, OF run] inv
  have kept: "throttle_inv ?w'"
    by simp
  from progress_throttle [THEN conjunct2, THEN mp, OF dev]
  have apart: "spaced (progress_times (trace ?W))"
    by simp
  from inv near run first kept dev times apart show ?thesis
    by simp
qed


section \<open>The report at the end of a run\<close>





section \<open>The fallback after an unexpected error\<close>

text \<open>
  Claim C2. In \<^verbatim>\<open>check_one_by_one\<close> the failure of the first \<^verbatim>\<open>lseek64\<close> of a sector and a
  read failure with an \<^verbatim>\<open>errno\<close> other than \<^verbatim>\<open>EIO\<close> and \<^verbatim>\<open>EILSEQ\<close> are followed by
  \<^verbatim>\<open>return\<close>, not by \<^verbatim>\<open>continue\<close>. On a chunk of sectors 0 to 3 where sector 1 fails that
  way and sector 2 is bad, the fallback stops at sector 1: sectors 2 and 3 are not
  visited, the bad sector is neither reported nor rewritten, and the \<^verbatim>\<open>fflush\<close> after the
  loop is not reached.
\<close>

theorem fallback_stops_at_unexpected_error:
  "check_one_by_one 0 small_config (sim_env [(1, Seek_errno 29), (2, Media)] 2048) 4 0
       DEV_CHECK init_world
     = (Inr (), init_world \<lparr> trace := [Print (Seek_error 1 29),
                                          Call Fallback (Lseek64 512) (Fail 29) 29,
                                          Call Fallback (Read 512) (Ok 512) 0,
                                          Call Fallback (Lseek64 0) (Ok 0) 0,
                                          Print Clear_line],
                               errno := 29 \<rparr>)
   \<and> check_one_by_one 0 small_config (sim_env [(1, Read_errno 12), (2, Media)] 2048) 4 0
       DEV_FIX init_world
     = (Inr (), init_world \<lparr> trace := [Print (Error_sector 1 12),
                                          Call Fallback (Read 512) (Fail 12) 12,
                                          Call Fallback (Lseek64 512) (Ok 512) 0,
                                          Call Fallback (Read 512) (Ok 512) 0,
                                          Call Fallback (Lseek64 0) (Ok 0) 0,
                                          Print Clear_line],
                               errno := 12 \<rparr>)"
  by (simp add: run_defs del: chunk_loop.simps get_random.simps)

end
